theory Spec2Isabelle
  imports Main "HOL-Library.AList"
begin

section \<open>Texts, numerals and errors\<close>

text \<open>
  A Python \<open>str\<close> is modelled as a \<open>string\<close>, one \<open>char\<close> per code point; the model
  covers the code points below 256. The exceptions the modelled functions can raise are
  values of \<open>py_error\<close>; a function that can raise returns \<open>py_error + 'a\<close>, with
  \<open>Inl\<close> for the exception.
\<close>

datatype py_error = IndexError | KeyError | ValueError | TypeError | AttributeError

abbreviation NL :: char where "NL \<equiv> CHR 0x0A"
abbreviation CR :: char where "CR \<equiv> CHR 0x0D"

text \<open>\<open>str(n)\<close> for an integer: the decimal numeral, with a minus sign below zero.\<close>

definition digit_char :: "nat \<Rightarrow> char" where
  "digit_char d = ''0123456789'' ! d"

fun str_nat :: "nat \<Rightarrow> string" where
  "str_nat n = (if n < 10 then [digit_char n] else str_nat (n div 10) @ [digit_char (n mod 10)])"

declare str_nat.simps [simp del]

definition str_int :: "int \<Rightarrow> string" where
  "str_int i = (if i < 0 then CHR ''-'' # str_nat (nat (- i)) else str_nat (nat i))"

text \<open>
  \<open>int(s)\<close> on a text matched by \<open>\d+\<close>: the value of a decimal numeral. (The
  interpreter refuses numerals of several thousand digits; the model reads them all.)
\<close>

definition is_digit :: "char \<Rightarrow> bool" where
  "is_digit c \<longleftrightarrow> c \<in> set ''0123456789''"

definition digit_val :: "char \<Rightarrow> nat" where
  "digit_val c = of_char c - 48"

definition int_of_digits :: "string \<Rightarrow> nat" where
  "int_of_digits s = foldl (\<lambda>a c. 10 * a + digit_val c) 0 s"

text \<open>
  White space as \<open>str.strip\<close>, \<open>str.isspace\<close> and the pattern \<open>\s\<close> see it, and the
  line boundaries of \<open>str.splitlines\<close>.
\<close>

definition is_space :: "char \<Rightarrow> bool" where
  "is_space c \<longleftrightarrow> c \<in> {CHR 0x09, CHR 0x0A, CHR 0x0B, CHR 0x0C, CHR 0x0D, CHR 0x1C, CHR 0x1D,
     CHR 0x1E, CHR 0x1F, CHR 0x20, CHR 0x85, CHR 0xA0}"

definition is_linebreak :: "char \<Rightarrow> bool" where
  "is_linebreak c \<longleftrightarrow> c \<in> {CHR 0x0A, CHR 0x0B, CHR 0x0C, CHR 0x0D, CHR 0x1C, CHR 0x1D,
     CHR 0x1E, CHR 0x85}"

definition strip :: "string \<Rightarrow> string" where
  "strip s = rev (dropWhile is_space (rev (dropWhile is_space s)))"

definition startswith :: "string \<Rightarrow> string \<Rightarrow> bool" where
  "startswith s p \<longleftrightarrow> take (length p) s = p"

text \<open>
  \<open>s.splitlines()\<close>: the lines without their boundaries; \<open>\r\n\<close> is one boundary and a
  final boundary opens no further line. \<open>cur\<close> is the line read so far.
\<close>

fun splitlines_from :: "string \<Rightarrow> string \<Rightarrow> string list" where
  "splitlines_from cur [] = (if cur = [] then [] else [cur])"
| "splitlines_from cur [c] = (if is_linebreak c then [cur] else [cur @ [c]])"
| "splitlines_from cur (c # d # r) =
     (if c = CR \<and> d = NL then cur # splitlines_from [] r
      else if is_linebreak c then cur # splitlines_from [] (d # r)
      else splitlines_from (cur @ [c]) (d # r))"

definition splitlines :: "string \<Rightarrow> string list" where
  "splitlines s = splitlines_from [] s"

text \<open>\<open>s.lower()\<close>, character by character.\<close>

definition lower_char :: "char \<Rightarrow> char" where
  "lower_char c = (let n = (of_char c :: nat) in
     if (65 \<le> n \<and> n \<le> 90) \<or> (192 \<le> n \<and> n \<le> 222 \<and> n \<noteq> 215) then char_of (n + 32)
     else c)"

definition lower :: "string \<Rightarrow> string" where
  "lower s = map lower_char s"

text \<open>\<open>p in s\<close> for texts: \<open>p\<close> occurs in \<open>s\<close>.\<close>

fun contains :: "string \<Rightarrow> string \<Rightarrow> bool" where
  "contains [] p = (p = [])"
| "contains (c # r) p = (startswith (c # r) p \<or> contains r p)"

text \<open>
  \<open>s.split(sep, 1)\<close> has a second part when \<open>sep\<close> occurs in \<open>s\<close>: the text after the
  first occurrence. \<open>s.rsplit("/", 1)[-1]\<close> is the text after the last \<open>/\<close>, and
  \<open>s.rstrip("\n")\<close> drops the newlines at the end.
\<close>

fun after_first :: "string \<Rightarrow> string \<Rightarrow> string option" where
  "after_first sep [] = None"
| "after_first sep (c # r) =
     (if startswith (c # r) sep then Some (drop (length sep) (c # r)) else after_first sep r)"

definition after_last_slash :: "string \<Rightarrow> string" where
  "after_last_slash s = rev (takeWhile (\<lambda>c. c \<noteq> CHR ''/'') (rev s))"

definition rstrip_newlines :: "string \<Rightarrow> string" where
  "rstrip_newlines s = rev (dropWhile (\<lambda>c. c = NL) (rev s))"

section \<open>The code chunk\<close>

text \<open>The class \<open>CodeChunk\<close> of \<open>formatter.py\<close>.\<close>

record CodeChunk =
  start_line :: int
  end_line :: int
  code :: string

section \<open>Formatting a diff\<close>

subsection \<open>The patterns\<close>

text \<open>
  The file separator \<open>\n\+{3,}\s\<close> at the start of a text: a newline, three or more
  plus signs and one white-space character. The result is the text after the match.
\<close>

definition match_file_separator :: "string \<Rightarrow> string option" where
  "match_file_separator s =
     (case s of
        [] \<Rightarrow> None
      | c # r \<Rightarrow>
          if c = NL \<and> 3 \<le> length (takeWhile (\<lambda>x. x = CHR ''+'') r) then
            (case dropWhile (\<lambda>x. x = CHR ''+'') r of
               [] \<Rightarrow> None
             | w # rest \<Rightarrow> if is_space w then Some rest else None)
          else None)"

text \<open>
  \<open>re.split(pattern, text, maxsplit)\<close> for the file separator: at most \<open>maxsplit\<close>
  splits, from the left; what is left after the last split is the last element.
  \<open>cur\<close> is the element read so far.
\<close>

function re_split_files :: "nat \<Rightarrow> string \<Rightarrow> string \<Rightarrow> string list" where
  "re_split_files 0 cur s = [cur @ s]"
| "re_split_files (Suc k) cur [] = [cur]"
| "re_split_files (Suc k) cur (c # r) =
     (case match_file_separator (c # r) of
        Some rest \<Rightarrow> cur # re_split_files k [] rest
      | None \<Rightarrow> re_split_files (Suc k) (cur @ [c]) r)"
  by pat_completeness auto
termination
proof -
  have shorter: "length rest < length s" if "match_file_separator s = Some rest" for s rest
  proof -
    from that obtain c r w where s: "s = c # r" and "dropWhile (\<lambda>x. x = CHR ''+'') r = w # rest"
      by (auto simp: match_file_separator_def split: if_splits list.splits)
    then have "length rest < length (dropWhile (\<lambda>x. x = CHR ''+'') r)" by simp
    also have "\<dots> \<le> length r" by (rule length_dropWhile_le)
    finally show ?thesis using s by simp
  qed
  show ?thesis
    by (relation "measure (\<lambda>(k, cur, s). length s)") (auto dest: shorter)
qed

text \<open>
  The call in the source is \<open>re.split(r"\n\+{3,}\s", diff_text, re.MULTILINE)\<close>: the third
  positional parameter of \<open>re.split\<close> is \<open>maxsplit\<close>, and \<open>re.MULTILINE\<close> is the number 8.
\<close>

definition re_MULTILINE :: nat where
  "re_MULTILINE = 8"

definition parent_chunks :: "string \<Rightarrow> string list" where
  "parent_chunks diff_text = re_split_files re_MULTILINE [] diff_text"

text \<open>
  The hunk header \<open>@@ -(\d+),(\d+) \+(\d+),(\d+) @@\<close> at the start of a text: the four
  numerals and the text after the match. Each \<open>\d+\<close> is followed by a character that is
  no digit, so the longest run of digits is the only one that can match.
\<close>

definition match_literal :: "string \<Rightarrow> string \<Rightarrow> string option" where
  "match_literal p s = (if startswith s p then Some (drop (length p) s) else None)"

definition match_digits :: "string \<Rightarrow> (string \<times> string) option" where
  "match_digits s =
     (if takeWhile is_digit s = [] then None
      else Some (takeWhile is_digit s, dropWhile is_digit s))"

definition match_hunk_header :: "string \<Rightarrow> ((string \<times> string \<times> string \<times> string) \<times> string) option" where
  "match_hunk_header s =
     Option.bind (match_literal ''@@ -'' s) (\<lambda>s1.
     Option.bind (match_digits s1) (\<lambda>(a, s2).
     Option.bind (match_literal '','' s2) (\<lambda>s3.
     Option.bind (match_digits s3) (\<lambda>(b, s4).
     Option.bind (match_literal '' +'' s4) (\<lambda>s5.
     Option.bind (match_digits s5) (\<lambda>(c, s6).
     Option.bind (match_literal '','' s6) (\<lambda>s7.
     Option.bind (match_digits s7) (\<lambda>(d, s8).
     Option.bind (match_literal '' @@'' s8) (\<lambda>s9.
     Some ((a, b, c, d), s9))))))))))"

text \<open>\<open>re.findall(pattern, text)[0]\<close>: the leftmost match, \<open>IndexError\<close> without one.\<close>

fun first_hunk_header :: "string \<Rightarrow> (string \<times> string \<times> string \<times> string) option" where
  "first_hunk_header [] = None"
| "first_hunk_header (c # r) =
     (case match_hunk_header (c # r) of
        Some (m, rest) \<Rightarrow> Some m
      | None \<Rightarrow> first_hunk_header r)"

text \<open>
  \<open>re.split(r"(?=@@ -\d+,\d+ \+\d+,\d+ @@)", file_chunk)\<close>: the text is cut in front of
  every hunk header; the first element is what precedes the first header.
\<close>

fun re_split_hunks :: "string \<Rightarrow> string \<Rightarrow> string list" where
  "re_split_hunks cur [] = [cur]"
| "re_split_hunks cur (c # r) =
     (if match_hunk_header (c # r) \<noteq> None then cur # re_split_hunks [c] r
      else re_split_hunks (cur @ [c]) r)"

text \<open>
  \<open>re.sub(r"(diff --git.*\n)(.*\n)", lambda match: match.group(1), file_chunk)\<close>: the
  line after a line that holds \<open>diff --git\<close> is removed. The match at the start of a
  text gives the first group and the text after the match.
\<close>

definition match_git_pair :: "string \<Rightarrow> (string \<times> string) option" where
  "match_git_pair s =
     (if startswith s ''diff --git'' then
        (case dropWhile (\<lambda>c. c \<noteq> NL) (drop 10 s) of
           [] \<Rightarrow> None
         | n1 # t \<Rightarrow>
             (case dropWhile (\<lambda>c. c \<noteq> NL) t of
                [] \<Rightarrow> None
              | n2 # rest \<Rightarrow>
                  Some (''diff --git'' @ takeWhile (\<lambda>c. c \<noteq> NL) (drop 10 s) @ [NL], rest)))
      else None)"

function remove_line_after_git :: "string \<Rightarrow> string" where
  "remove_line_after_git [] = []"
| "remove_line_after_git (c # r) =
     (case match_git_pair (c # r) of
        Some (g, rest) \<Rightarrow> g @ remove_line_after_git rest
      | None \<Rightarrow> c # remove_line_after_git r)"
  by pat_completeness auto
termination
proof -
  have shorter: "length rest < length s" if "match_git_pair s = Some (g, rest)" for s g rest
  proof -
    from that obtain n1 t n2 where t: "dropWhile (\<lambda>c. c \<noteq> NL) (drop 10 s) = n1 # t"
      and r: "dropWhile (\<lambda>c. c \<noteq> NL) t = n2 # rest"
      by (auto simp: match_git_pair_def split: if_splits list.splits)
    have "length rest < length (dropWhile (\<lambda>c. c \<noteq> NL) t)" using r by simp
    also have "\<dots> \<le> length t" by (rule length_dropWhile_le)
    also have "\<dots> < length (dropWhile (\<lambda>c. c \<noteq> NL) (drop 10 s))" using t by simp
    also have "\<dots> \<le> length (drop 10 s)" by (rule length_dropWhile_le)
    also have "\<dots> \<le> length s" by simp
    finally show ?thesis .
  qed
  show ?thesis
    by (relation "measure length") (auto dest: shorter)
qed

text \<open>
  \<open>re.sub(r"^diff --git.*\n", "", file_chunk, flags=re.MULTILINE)\<close>: a line that starts
  with \<open>diff --git\<close> and ends with a newline is removed. \<open>bol\<close> says that the text read
  starts a line.
\<close>

definition match_git_line :: "string \<Rightarrow> string option" where
  "match_git_line s =
     (if startswith s ''diff --git'' then
        (case dropWhile (\<lambda>c. c \<noteq> NL) (drop 10 s) of
           [] \<Rightarrow> None
         | n1 # rest \<Rightarrow> Some rest)
      else None)"

function remove_git_lines :: "bool \<Rightarrow> string \<Rightarrow> string" where
  "remove_git_lines bol [] = []"
| "remove_git_lines bol (c # r) =
     (case (if bol then match_git_line (c # r) else None) of
        Some rest \<Rightarrow> remove_git_lines True rest
      | None \<Rightarrow> c # remove_git_lines (c = NL) r)"
  by pat_completeness auto
termination
proof -
  have shorter: "length rest < length s" if "match_git_line s = Some rest" for s rest
  proof -
    from that obtain n1 where t: "dropWhile (\<lambda>c. c \<noteq> NL) (drop 10 s) = n1 # rest"
      by (auto simp: match_git_line_def split: if_splits list.splits)
    have "length rest < length (dropWhile (\<lambda>c. c \<noteq> NL) (drop 10 s))" using t by simp
    also have "\<dots> \<le> length (drop 10 s)" by (rule length_dropWhile_le)
    also have "\<dots> \<le> length s" by simp
    finally show ?thesis .
  qed
  show ?thesis
    by (relation "measure (\<lambda>(bol, s). length s)") (auto dest: shorter split: if_splits)
qed

subsection \<open>Annotating a hunk\<close>

text \<open>
  The state of the loop over the lines of a hunk: the counter, the text of the hunk built
  so far and the selection marker. The source appends every line it appends to
  \<open>chunk_formatted\<close> to \<open>diff_formatted\<close> as well, so the share of a hunk in
  \<open>diff_formatted\<close> is its \<open>chunk_formatted\<close>.
\<close>

record line_state =
  line_counter :: int
  chunk_formatted :: string
  optional_selection_marker :: string

text \<open>The selection marker of a header line: \<open>line.split("def", 1)\<close>, second part stripped.\<close>

definition selection_marker :: "string \<Rightarrow> string" where
  "selection_marker line =
     (case after_first ''def'' line of
        Some part \<Rightarrow> strip part
      | None \<Rightarrow> [])"

text \<open>The body of the loop, for one line.\<close>

definition line_step :: "line_state \<Rightarrow> string \<Rightarrow> line_state" where
  "line_step st line =
     (if startswith line ''@@ -'' then
        st\<lparr>chunk_formatted := chunk_formatted st @ line @ [NL],
           optional_selection_marker := selection_marker line\<rparr>
      else if startswith line ''---'' then st
      else if startswith line ''-'' then st
      else
        st\<lparr>line_counter := line_counter st + 1,
           chunk_formatted :=
             chunk_formatted st @ str_int (line_counter st + 1) @ '' '' @ line @ [NL]\<rparr>)"

text \<open>
  One element of \<open>changes_per_file\<close> after the first: the header numbers, the loop over
  the lines and the code chunk, with the selection marker it is filed under.
\<close>

definition annotate_hunk :: "string \<Rightarrow> py_error + (CodeChunk \<times> string)" where
  "annotate_hunk code_change_chunk =
     (case first_hunk_header code_change_chunk of
        None \<Rightarrow> Inl IndexError
      | Some (original_start_line, original_end_line, new_start_line, new_end_line) \<Rightarrow>
          let st = foldl line_step
                     \<lparr>line_counter = - 1 + int (int_of_digits new_start_line),
                      chunk_formatted = [],
                      optional_selection_marker = []\<rparr>
                     (splitlines code_change_chunk)
          in Inr (\<lparr>start_line = int (int_of_digits new_start_line),
                    end_line = int (int_of_digits new_end_line)
                      + int (int_of_digits new_start_line) - 1,
                    code = chunk_formatted st\<rparr>,
                  optional_selection_marker st))"

subsection \<open>Files and marker groups\<close>

text \<open>
  \<open>code_change_chunks[j]\<close> is a dictionary from selection markers to lists of code
  chunks, in insertion order: a new marker is added at the end, a known marker has the
  chunk appended to its list.
\<close>

definition add_code_chunk ::
  "string \<Rightarrow> CodeChunk \<Rightarrow> (string \<times> CodeChunk list) list \<Rightarrow> (string \<times> CodeChunk list) list" where
  "add_code_chunk marker code_chunk groups =
     (case map_of groups marker of
        None \<Rightarrow> groups @ [(marker, [code_chunk])]
      | Some chunks \<Rightarrow> AList.update marker (chunks @ [code_chunk]) groups)"

text \<open>
  The hunks of one file, in order: the text of the file grows by the text of each hunk,
  and each code chunk is filed under its marker.
\<close>

fun hunks_loop ::
  "string list \<Rightarrow> string \<Rightarrow> (string \<times> CodeChunk list) list
    \<Rightarrow> py_error + (string \<times> (string \<times> CodeChunk list) list)" where
  "hunks_loop [] file_text groups = Inr (file_text, groups)"
| "hunks_loop (code_change_chunk # chunks) file_text groups =
     (case annotate_hunk code_change_chunk of
        Inl e \<Rightarrow> Inl e
      | Inr (code_chunk, marker) \<Rightarrow>
          hunks_loop chunks (file_text @ code code_chunk)
            (add_code_chunk marker code_chunk groups))"

text \<open>The results of \<open>format_git_diff\<close>; the dictionaries have the file index as key.\<close>

record diff_result =
  diff_formatted :: string
  file_chunks :: "(int \<times> string) list"
  code_change_chunks :: "(int \<times> (string \<times> CodeChunk list) list) list"
  file_names :: "string list"
  file_paths :: "string list"

text \<open>
  One file chunk with its index \<open>j\<close>: the two substitutions, the split at the hunk
  headers, the first element as the file name and the other elements as hunks.
\<close>

definition format_file :: "int \<Rightarrow> string \<Rightarrow> diff_result \<Rightarrow> py_error + diff_result" where
  "format_file j file_chunk res =
     (case re_split_hunks [] (remove_git_lines True (remove_line_after_git file_chunk)) of
        [] \<Rightarrow> Inr res
      | name_chunk # hunks \<Rightarrow>
          (case hunks_loop hunks (after_last_slash name_chunk) [] of
             Inl e \<Rightarrow> Inl e
           | Inr (file_text, groups) \<Rightarrow>
               Inr \<lparr>diff_formatted = diff_formatted res @ file_text,
                    file_chunks = AList.update j file_text (file_chunks res),
                    code_change_chunks = AList.update j groups (code_change_chunks res),
                    file_names = file_names res @ [after_last_slash (rstrip_newlines name_chunk)],
                    file_paths = file_paths res @ [rstrip_newlines (drop 2 name_chunk)]\<rparr>))"

fun files_loop :: "int \<Rightarrow> string list \<Rightarrow> diff_result \<Rightarrow> py_error + diff_result" where
  "files_loop j [] res = Inr res"
| "files_loop j (file_chunk # chunks) res =
     (case format_file j file_chunk res of
        Inl e \<Rightarrow> Inl e
      | Inr res' \<Rightarrow> files_loop (j + 1) chunks res')"

text \<open>
  \<open>format_git_diff(diff_text)\<close>: the first parent chunk has the index \<open>-1\<close> and is
  skipped, the file chunks are counted from 0.
\<close>

definition format_git_diff :: "string \<Rightarrow> py_error + diff_result" where
  "format_git_diff diff_text =
     files_loop 0 (tl (parent_chunks diff_text))
       \<lparr>diff_formatted = [], file_chunks = [], code_change_chunks = [],
        file_names = [], file_paths = []\<rparr>"

section \<open>Filtering review entries\<close>

text \<open>
  A review entry, as the data model of the service's answer has it. The review result
  maps file names to dictionaries from line keys to entries.
\<close>

record ReviewEntry =
  feedback :: string
  suggestion :: "string option"

definition has_not_used_or_unused :: "string \<Rightarrow> bool" where
  "has_not_used_or_unused fb \<longleftrightarrow>
     contains (lower fb) ''not used''
     \<or> contains (lower fb) ''unused''
     \<or> contains (lower fb) ''not being used''
     \<or> contains (lower fb) ''variable name''
     \<or> contains (lower fb) ''more descriptive''
     \<or> contains (lower fb) ''more specific''
     \<or> contains (lower fb) ''never used''"

definition remove_unused_suggestions ::
  "(string \<times> (string \<times> ReviewEntry) list) list \<Rightarrow> (string \<times> (string \<times> ReviewEntry) list) list" where
  "remove_unused_suggestions review_result =
     map (\<lambda>(file, file_data).
            (file, filter (\<lambda>(line, val). \<not> has_not_used_or_unused (feedback val)) file_data))
         review_result"

section \<open>Merging review entries into code hunks\<close>

text \<open>
  \<open>parse_apply_review_per_code_hunk(code_changes, review_json, line_number_stack)\<close>.

  The Python list \<open>line_number_stack\<close> is popped at its end; the model keeps the stack
  top first, so the Python list is the reverse of the model's list and \<open>pop()\<close> takes
  the head. The function mutates the caller's stack, so the model returns the stack
  that is left. \<open>review_json\<close> is a dictionary with text keys, kept as an association
  list and read with \<open>map_of\<close>; a missing key raises \<open>KeyError\<close>.
  \<open>review_per_chunk\<close> is a dictionary with integer keys in insertion order: an
  association list, written with \<open>AList.update\<close> (a key that is present keeps its place).
\<close>

text \<open>The test of the \<open>while\<close> loop.\<close>

definition in_hunk :: "CodeChunk \<Rightarrow> int \<Rightarrow> bool" where
  "in_hunk h n \<longleftrightarrow> start_line h \<le> n \<and> n < start_line h + end_line h"

text \<open>
  The \<open>while\<close> loop for one hunk, from the current line number \<open>n\<close>, the stack and the
  entries collected so far. It returns the current line number, the stack and the
  entries at the exit of the loop.
\<close>

fun attach_while ::
  "CodeChunk \<Rightarrow> (string \<times> 'v) list \<Rightarrow> int \<Rightarrow> int list \<Rightarrow> (int \<times> 'v) list
    \<Rightarrow> py_error + (int \<times> int list \<times> (int \<times> 'v) list)" where
  "attach_while h review_json n [] review_per_chunk =
     (if in_hunk h n then
        (case map_of review_json (str_int n) of
           None \<Rightarrow> Inl KeyError
         | Some v \<Rightarrow> Inr (n, [], AList.update n v review_per_chunk))
      else Inr (n, [], review_per_chunk))"
| "attach_while h review_json n (m # stack) review_per_chunk =
     (if in_hunk h n then
        (case map_of review_json (str_int n) of
           None \<Rightarrow> Inl KeyError
         | Some v \<Rightarrow> attach_while h review_json m stack (AList.update n v review_per_chunk))
      else Inr (n, m # stack, review_per_chunk))"

text \<open>
  The \<open>for\<close> loop over the hunks. A hunk with at least one entry adds a payload, kept
  here as the pair of the hunk and its entries; the loop breaks when the stack is
  empty after a hunk. Besides the payloads and the stack the model returns the current
  line number and the hunks the loop has not reached.
\<close>

fun hunk_loop ::
  "(string \<times> 'v) list \<Rightarrow> CodeChunk list \<Rightarrow> int \<Rightarrow> int list
    \<Rightarrow> (CodeChunk \<times> (int \<times> 'v) list) list
    \<Rightarrow> py_error + ((CodeChunk \<times> (int \<times> 'v) list) list \<times> int list \<times> int \<times> CodeChunk list)" where
  "hunk_loop review_json [] n stack payload = Inr (payload, stack, n, [])"
| "hunk_loop review_json (h # hs) n stack payload =
     (case attach_while h review_json n stack [] of
        Inl e \<Rightarrow> Inl e
      | Inr (n', stack', review_per_chunk) \<Rightarrow>
          let payload' = (if review_per_chunk \<noteq> [] then payload @ [(h, review_per_chunk)]
                          else payload)
          in if stack' = [] then Inr (payload', stack', n', hs)
             else hunk_loop review_json hs n' stack' payload')"

text \<open>
  The whole function on structured payloads: the first \<open>pop()\<close> raises \<open>IndexError\<close>
  on an empty stack.
\<close>

definition merge_review ::
  "CodeChunk list \<Rightarrow> (string \<times> 'v) list \<Rightarrow> int list
    \<Rightarrow> py_error + ((CodeChunk \<times> (int \<times> 'v) list) list \<times> int list \<times> int \<times> CodeChunk list)" where
  "merge_review code_changes review_json line_number_stack =
     (case line_number_stack of
        [] \<Rightarrow> Inl IndexError
      | n # stack \<Rightarrow> hunk_loop review_json code_changes n stack [])"

text \<open>
  The payload text of a hunk: \<open>code + "\n" + json.dumps(review_per_chunk) + "\n"\<close>.
  \<open>json.dumps\<close> belongs to the standard library and is a parameter.
\<close>

definition hunk_payload ::
  "((int \<times> 'v) list \<Rightarrow> string) \<Rightarrow> CodeChunk \<times> (int \<times> 'v) list \<Rightarrow> string" where
  "hunk_payload dumps p = code (fst p) @ [CHR 0x0A] @ dumps (snd p) @ [CHR 0x0A]"

definition parse_apply_review_per_code_hunk ::
  "((int \<times> 'v) list \<Rightarrow> string) \<Rightarrow> CodeChunk list \<Rightarrow> (string \<times> 'v) list \<Rightarrow> int list
    \<Rightarrow> py_error + (string list \<times> int list)" where
  "parse_apply_review_per_code_hunk dumps code_changes review_json line_number_stack =
     (case merge_review code_changes review_json line_number_stack of
        Inl e \<Rightarrow> Inl e
      | Inr (payload, stack, n, rest) \<Rightarrow> Inr (map (hunk_payload dumps) payload, stack))"

section \<open>Choosing the code chunks to review\<close>

text \<open>
  The branch of \<open>apply_review\<close> that splits the request by selection markers. The
  functions of \<open>utils\<close> and of the standard library it calls are parameters:
  \<open>utils.count_tokens\<close>, \<open>json.dumps\<close> on a text and on the entries of a hunk, and
  \<open>utils.parse_string_to_int\<close>.
\<close>

record 'v review_tools =
  count_tokens :: "string \<Rightarrow> int"
  json_dumps_text :: "string \<Rightarrow> string"
  json_dumps_entries :: "(int \<times> 'v) list \<Rightarrow> string"
  parse_string_to_int :: "string \<Rightarrow> py_error + int"

text \<open>
  The line number stack: the keys of \<open>review_json\<close> are read in reversed order and each
  number is appended to the Python list, that is, put on top of the stack.
\<close>

fun stack_loop ::
  "(string \<Rightarrow> py_error + int) \<Rightarrow> string list \<Rightarrow> int list \<Rightarrow> py_error + int list" where
  "stack_loop parse [] line_number_stack = Inr line_number_stack"
| "stack_loop parse (line_number # keys) line_number_stack =
     (case parse line_number of
        Inl e \<Rightarrow> Inl e
      | Inr n \<Rightarrow> stack_loop parse keys (n # line_number_stack))"

definition line_number_stack_of ::
  "'v review_tools \<Rightarrow> (string \<times> 'v) list \<Rightarrow> py_error + int list" where
  "line_number_stack_of tools review_json =
     stack_loop (parse_string_to_int tools) (rev (map fst review_json)) []"

text \<open>
  The loop over the payloads of one marker group: a payload whose tokens, with the tokens
  of the prompt, are at most 2048 is appended to \<open>code_chunks_to_review\<close>.
\<close>

fun payload_loop :: "'v review_tools \<Rightarrow> int \<Rightarrow> string list \<Rightarrow> string list \<Rightarrow> string list" where
  "payload_loop tools prompt_tokens [] code_chunks_to_review = code_chunks_to_review"
| "payload_loop tools prompt_tokens (chunk # chunk_payload) code_chunks_to_review =
     payload_loop tools prompt_tokens chunk_payload
       (if count_tokens tools (json_dumps_text tools chunk) + prompt_tokens \<le> 2048
        then code_chunks_to_review @ [chunk]
        else code_chunks_to_review)"

text \<open>
  The loop over the marker groups (the values of \<open>selection_marker_chunks\<close>): it breaks on
  an empty stack, merges the group with the review and sizes the payloads.
\<close>

fun group_loop ::
  "'v review_tools \<Rightarrow> int \<Rightarrow> (string \<times> 'v) list \<Rightarrow> CodeChunk list list \<Rightarrow> int list
    \<Rightarrow> string list \<Rightarrow> py_error + (string list \<times> int list)" where
  "group_loop tools prompt_tokens review_json [] line_number_stack code_chunks_to_review =
     Inr (code_chunks_to_review, line_number_stack)"
| "group_loop tools prompt_tokens review_json (code_chunk # groups) line_number_stack
      code_chunks_to_review =
     (if line_number_stack = [] then Inr (code_chunks_to_review, line_number_stack)
      else
        (case parse_apply_review_per_code_hunk (json_dumps_entries tools) code_chunk
                review_json line_number_stack of
           Inl e \<Rightarrow> Inl e
         | Inr (chunk_payload, stack') \<Rightarrow>
             group_loop tools prompt_tokens review_json groups stack'
               (if chunk_payload \<noteq> []
                then payload_loop tools prompt_tokens chunk_payload code_chunks_to_review
                else code_chunks_to_review)))"

text \<open>
  From the review of a file and its marker groups to \<open>code_chunks_to_review\<close>.
  \<open>prompt_tokens\<close> is the token count of the empty prompt, which the source computes
  with the functions of \<open>prompt\<close>.
\<close>

definition code_chunks_to_review ::
  "'v review_tools \<Rightarrow> int \<Rightarrow> (string \<times> 'v) list \<Rightarrow> (string \<times> CodeChunk list) list
    \<Rightarrow> py_error + (string list \<times> int list)" where
  "code_chunks_to_review tools prompt_tokens review_json selection_marker_chunks =
     (case line_number_stack_of tools review_json of
        Inl e \<Rightarrow> Inl e
      | Inr line_number_stack \<Rightarrow>
          group_loop tools prompt_tokens review_json (map snd selection_marker_chunks)
            line_number_stack [])"

section \<open>Requesting a review\<close>

text \<open>
  \<open>request_review\<close>. Its collaborators are parameters: the prompts, the token count of a
  prompt (\<open>utils.count_tokens(json.dumps(prompt))\<close>), the service, \<open>json.loads\<close>,
  \<open>formatter.extract_content_from_markdown_code_block\<close> and
  \<open>utils.repair_truncated_json\<close>. The service has a state of its own, passed along; its
  answer is a text or nothing. The progress message given to the service is left out.

  A review has the type of the data model, so \<open>json_loads\<close> stands for \<open>json.loads\<close>
  with its value read as a review: a text that is no JSON raises \<open>ValueError\<close>, and a
  JSON value of another shape raises where \<open>remove_unused_suggestions\<close> reads it
  (\<open>AttributeError\<close> for a value without \<open>items\<close>, such as the list \<open>[]\<close>;
  \<open>KeyError\<close> or \<open>TypeError\<close> for an entry without a feedback).
\<close>

type_synonym review = "(string \<times> (string \<times> ReviewEntry) list) list"

record ('p, 's) review_service =
  get_review_prompt :: "string \<Rightarrow> int \<Rightarrow> 'p"
  get_review_repair_prompt :: "string \<Rightarrow> py_error \<Rightarrow> int \<Rightarrow> 'p"
  count_prompt_tokens :: "'p \<Rightarrow> int"
  send_request :: "'p \<Rightarrow> 's \<Rightarrow> string option \<times> 's"
  json_loads :: "string \<Rightarrow> py_error + review"
  extract_content_from_markdown_code_block :: "string option \<Rightarrow> py_error + string"
  repair_truncated_json :: "string \<Rightarrow> py_error + string"

text \<open>\<open>formatter.parse_review_result\<close>.\<close>

definition parse_review_result ::
  "(string \<Rightarrow> py_error + review) \<Rightarrow> string \<Rightarrow> py_error + review" where
  "parse_review_result loads review_result =
     (case loads review_result of
        Inl e \<Rightarrow> Inl e
      | Inr j \<Rightarrow> Inr (remove_unused_suggestions j))"

text \<open>\<open>parse_review_result(f(x))\<close> for a collaborator \<open>f\<close> that can raise.\<close>

definition parse_after ::
  "(string \<Rightarrow> py_error + review) \<Rightarrow> ('a \<Rightarrow> py_error + string) \<Rightarrow> 'a \<Rightarrow> py_error + review" where
  "parse_after loads f x =
     (case f x of
        Inl e \<Rightarrow> Inl e
      | Inr t \<Rightarrow> parse_review_result loads t)"

text \<open>
  The nested \<open>try\<close> blocks: each \<open>except ValueError\<close> catches \<open>ValueError\<close> only, any
  other exception leaves the function. The result is the returned value (\<open>None\<close> or the
  review) or the exception, with the state of the service.
\<close>

definition request_review ::
  "('p, 's) review_service \<Rightarrow> string \<Rightarrow> 's \<Rightarrow> (py_error + review option) \<times> 's" where
  "request_review srv code_to_review s =
     (let max_tokens = 4096 - count_prompt_tokens srv (get_review_prompt srv code_to_review 4096);
          payload = get_review_prompt srv code_to_review max_tokens;
          (review_result, s1) = send_request srv payload s
      in case review_result of
           None \<Rightarrow> (Inr None, s1)
         | Some r \<Rightarrow>
             if r = [] then (Inr None, s1)
             else
               (case parse_review_result (json_loads srv) r of
                  Inr j \<Rightarrow> (Inr (Some j), s1)
                | Inl e1 \<Rightarrow>
                    if e1 \<noteq> ValueError then (Inl e1, s1)
                    else
                      (case parse_after (json_loads srv)
                              (extract_content_from_markdown_code_block srv) (Some r) of
                         Inr j \<Rightarrow> (Inr (Some j), s1)
                       | Inl e2 \<Rightarrow>
                           if e2 \<noteq> ValueError then (Inl e2, s1)
                           else
                             (case parse_after (json_loads srv) (repair_truncated_json srv) r of
                                Inr j \<Rightarrow> (Inr (Some j), s1)
                              | Inl e3 \<Rightarrow>
                                  if e3 \<noteq> ValueError then (Inl e3, s1)
                                  else
                                    (let payload2 = get_review_repair_prompt srv r e3 max_tokens;
                                         (review_result2, s2) = send_request srv payload2 s1
                                     in case parse_after (json_loads srv)
                                               (extract_content_from_markdown_code_block srv)
                                               review_result2 of
                                          Inr j \<Rightarrow> (Inr (Some j), s2)
                                        | Inl e4 \<Rightarrow>
                                            if e4 = ValueError then (Inr None, s2)
                                            else (Inl e4, s2))))))"

section \<open>Notions used by the properties\<close>

text \<open>
  The line numbers attached by a merge, hunk after hunk, and what holds of a payload: its
  hunk is one of the hunks visited, it has an entry, and each of its entries passed the
  test of the loop for this hunk and is the entry of \<open>review_json\<close> for its line.
\<close>

definition attached_lines :: "(CodeChunk \<times> (int \<times> 'v) list) list \<Rightarrow> int list" where
  "attached_lines payload = concat (map (\<lambda>p. map fst (snd p)) payload)"

definition payload_ok ::
  "(string \<times> 'v) list \<Rightarrow> CodeChunk list \<Rightarrow> CodeChunk \<times> (int \<times> 'v) list \<Rightarrow> bool" where
  "payload_ok review_json visited p \<longleftrightarrow>
     fst p \<in> set visited \<and> snd p \<noteq> [] \<and>
     (\<forall>(k, v)\<in>set (snd p). in_hunk (fst p) k \<and> map_of review_json (str_int k) = Some v)"

text \<open>The loop over the hunks \<open>us\<close> visits them all and leaves a stack that is not empty.\<close>

definition stack_left_after ::
  "(string \<times> 'v) list \<Rightarrow> CodeChunk list \<Rightarrow> int \<Rightarrow> int list
    \<Rightarrow> (CodeChunk \<times> (int \<times> 'v) list) list \<Rightarrow> bool" where
  "stack_left_after review_json us n stack payload \<longleftrightarrow>
     (\<exists>pl s m. hunk_loop review_json us n stack payload = Inr (pl, s, m, []) \<and> s \<noteq> [])"

text \<open>
  The test of the budget for one payload, and all the payloads the merge returns over the
  marker groups, in order, before any is sized: the loop over the groups without the test.
\<close>

definition chunk_fits :: "'v review_tools \<Rightarrow> int \<Rightarrow> string \<Rightarrow> bool" where
  "chunk_fits tools prompt_tokens chunk \<longleftrightarrow>
     count_tokens tools (json_dumps_text tools chunk) + prompt_tokens \<le> 2048"

fun merged_payloads ::
  "((int \<times> 'v) list \<Rightarrow> string) \<Rightarrow> (string \<times> 'v) list \<Rightarrow> CodeChunk list list \<Rightarrow> int list
    \<Rightarrow> py_error + (string list \<times> int list)" where
  "merged_payloads dumps review_json [] stack = Inr ([], stack)"
| "merged_payloads dumps review_json (code_chunk # groups) stack =
     (if stack = [] then Inr ([], stack)
      else
        (case parse_apply_review_per_code_hunk dumps code_chunk review_json stack of
           Inl e \<Rightarrow> Inl e
         | Inr (chunk_payload, stack') \<Rightarrow>
             (case merged_payloads dumps review_json groups stack' of
                Inl e \<Rightarrow> Inl e
              | Inr (payloads, stack'') \<Rightarrow> Inr (chunk_payload @ payloads, stack''))))"

text \<open>
  The phrases that \<open>remove_unused_suggestions\<close> looks for, and a text mentioning a
  phrase whatever the case of its letters: some piece of the text is the phrase when put
  in lower case.
\<close>

definition flagged_phrases :: "string list" where
  "flagged_phrases = [''not used'', ''unused'', ''not being used'', ''variable name'',
     ''more descriptive'', ''more specific'', ''never used'']"

definition mentions :: "string \<Rightarrow> string \<Rightarrow> bool" where
  "mentions fb phrase \<longleftrightarrow> (\<exists>pre q post. fb = pre @ q @ post \<and> lower q = phrase)"

text \<open>
  Notions for the hunks. A header line is a line the loop passes through; the annotated
  lines of a code chunk are the other lines of its code. Stripping the number of an
  annotated line takes away the text up to the first blank and the blank.
\<close>

definition is_header_line :: "string \<Rightarrow> bool" where
  "is_header_line l \<longleftrightarrow> startswith l ''@@ -''"

definition annotated_lines :: "CodeChunk \<Rightarrow> string list" where
  "annotated_lines u = filter (\<lambda>l. \<not> is_header_line l) (splitlines (code u))"

definition strip_line_number :: "string \<Rightarrow> string" where
  "strip_line_number l = drop 1 (dropWhile (\<lambda>c. c \<noteq> CHR '' '') l)"

text \<open>
  A hunk as a text: the header line with its four numbers and the text after the closing
  \<open>@@\<close>, and the lines of the body, each line closed by a newline.
\<close>

definition hunk_header_line :: "nat \<Rightarrow> nat \<Rightarrow> nat \<Rightarrow> nat \<Rightarrow> string \<Rightarrow> string" where
  "hunk_header_line old_start old_count new_start new_count trailing =
     ''@@ -'' @ str_nat old_start @ '','' @ str_nat old_count @ '' +'' @ str_nat new_start
       @ '','' @ str_nat new_count @ '' @@'' @ trailing"

definition unlines :: "string list \<Rightarrow> string" where
  "unlines ls = concat (map (\<lambda>l. l @ [NL]) ls)"

definition hunk_text :: "nat \<Rightarrow> nat \<Rightarrow> nat \<Rightarrow> nat \<Rightarrow> string \<Rightarrow> string list \<Rightarrow> string" where
  "hunk_text old_start old_count new_start new_count trailing body =
     unlines (hunk_header_line old_start old_count new_start new_count trailing # body)"

text \<open>
  A hunk is well formed when no line holds a line boundary, every line of the body starts
  with a blank (context), a plus sign (added) or a minus sign (removed), and the number
  of the added and context lines, the lines retained, is the count of new lines that the
  header declares.
\<close>

definition no_linebreak :: "string \<Rightarrow> bool" where
  "no_linebreak l \<longleftrightarrow> (\<forall>c\<in>set l. \<not> is_linebreak c)"

definition body_line :: "string \<Rightarrow> bool" where
  "body_line l \<longleftrightarrow> l \<noteq> [] \<and> hd l \<in> {CHR '' '', CHR ''+'', CHR ''-''} \<and> no_linebreak l"

definition retained :: "string list \<Rightarrow> string list" where
  "retained body = filter (\<lambda>l. hd l \<noteq> CHR ''-'') body"

definition well_formed_hunk :: "nat \<Rightarrow> string \<Rightarrow> string list \<Rightarrow> bool" where
  "well_formed_hunk new_count trailing body \<longleftrightarrow>
     no_linebreak trailing \<and> (\<forall>l\<in>set body. body_line l)
     \<and> length (retained body) = new_count"

text \<open>The lines \<open>ls\<close> numbered from \<open>n\<close> on, as the loop writes them.\<close>

fun number_lines :: "int \<Rightarrow> string list \<Rightarrow> string list" where
  "number_lines n [] = []"
| "number_lines n (l # ls) = (str_int n @ '' '' @ l) # number_lines (n + 1) ls"

text \<open>
  The marker as the specification words it: the text after the four numbers and the
  closing \<open>@@\<close> of a header line, trimmed. And the group of a marker in a dictionary
  of marker groups, empty when the marker is no key.
\<close>

definition header_trailing_text :: "string \<Rightarrow> string" where
  "header_trailing_text line =
     (case match_hunk_header line of
        Some (m, rest) \<Rightarrow> strip rest
      | None \<Rightarrow> [])"

definition group_of :: "(string \<times> CodeChunk list) list \<Rightarrow> string \<Rightarrow> CodeChunk list" where
  "group_of groups marker = (case map_of groups marker of None \<Rightarrow> [] | Some chunks \<Rightarrow> chunks)"

text \<open>
  The layers of \<open>request_review\<close> in terms of its collaborators. A layer works on a
  text, or on the exception of the collaborator that should have given the text. It
  succeeds with a review when \<open>json.loads\<close> reads the text and the review is the value
  read, filtered by \<open>remove_unused_suggestions\<close>; it raises an exception when the
  collaborator raises it or \<open>json.loads\<close> raises it on the text.
\<close>

definition succeeds_in_layer ::
  "(string \<Rightarrow> py_error + review) \<Rightarrow> py_error + string \<Rightarrow> review \<Rightarrow> bool" where
  "succeeds_in_layer loads layer_text j \<longleftrightarrow>
     (\<exists>t raw. layer_text = Inr t \<and> loads t = Inr raw \<and> j = remove_unused_suggestions raw)"

definition raises_in_layer ::
  "(string \<Rightarrow> py_error + review) \<Rightarrow> py_error + string \<Rightarrow> py_error \<Rightarrow> bool" where
  "raises_in_layer loads layer_text e \<longleftrightarrow>
     layer_text = Inl e \<or> (\<exists>t. layer_text = Inr t \<and> loads t = Inl e)"

section \<open>Properties of the merge\<close>

lemma update_keys: "fst ` set (AList.update k v al) = insert k (fst ` set al)"
  by (induction al) auto

lemma update_entries: "set (AList.update k v al) \<subseteq> insert (k, v) (set al)"
  by (induction al) auto

lemma attach_while_keys:
  "attach_while h rj n st acc = Inr (n', st', rpc) \<Longrightarrow>
   \<exists>Q. n # st = Q @ n' # st' \<and> (\<forall>k\<in>set Q. in_hunk h k) \<and>
     ((\<not> in_hunk h n' \<and> fst ` set rpc = fst ` set acc \<union> set Q) \<or>
      (st' = [] \<and> in_hunk h n' \<and> fst ` set rpc = fst ` set acc \<union> set Q \<union> {n'}))"
proof (induction st arbitrary: n acc)
  case Nil
  show ?case
  proof (cases "in_hunk h n")
    case False
    with Nil show ?thesis by auto
  next
    case True
    with Nil obtain v where "map_of rj (str_int n) = Some v" "n' = n" "st' = []"
      "rpc = AList.update n v acc"
      by (auto split: option.splits)
    with True show ?thesis by (simp add: update_keys)
  qed
next
  case (Cons m st)
  show ?case
  proof (cases "in_hunk h n")
    case False
    with Cons.prems show ?thesis by auto
  next
    case True
    with Cons.prems obtain v where v: "map_of rj (str_int n) = Some v"
      and rec: "attach_while h rj m st (AList.update n v acc) = Inr (n', st', rpc)"
      by (auto split: option.splits)
    from Cons.IH [OF rec] obtain Q where Q: "m # st = Q @ n' # st'" "\<forall>k\<in>set Q. in_hunk h k"
      "(\<not> in_hunk h n' \<and> fst ` set rpc = fst ` set (AList.update n v acc) \<union> set Q) \<or>
      (st' = [] \<and> in_hunk h n' \<and> fst ` set rpc = fst ` set (AList.update n v acc) \<union> set Q \<union> {n'})"
      by blast
    show ?thesis
      apply (rule exI [of _ "n # Q"])
      using Q True by (auto simp: update_keys)
  qed
qed

lemma attach_while_entries:
  "attach_while h rj n st acc = Inr (n', st', rpc) \<Longrightarrow> (k, v) \<in> set rpc \<Longrightarrow>
   (k, v) \<in> set acc \<or> (in_hunk h k \<and> map_of rj (str_int k) = Some v)"
proof (induction st arbitrary: n acc)
  case Nil
  then show ?case using update_entries by (fastforce split: if_splits option.splits)
next
  case (Cons m st)
  show ?case
  proof (cases "in_hunk h n")
    case False
    with Cons.prems show ?thesis by auto
  next
    case True
    with Cons.prems obtain w where w: "map_of rj (str_int n) = Some w"
      and rec: "attach_while h rj m st (AList.update n w acc) = Inr (n', st', rpc)"
      by (auto split: option.splits)
    from Cons.IH [OF rec Cons.prems(2)] show ?thesis
      using update_entries [of n w acc] True w by auto
  qed
qed

lemma attach_while_distinct:
  "attach_while h rj n st acc = Inr (n', st', rpc) \<Longrightarrow> distinct (map fst acc) \<Longrightarrow>
   distinct (map fst rpc)"
  by (induction st arbitrary: n acc) (auto split: if_splits option.splits simp: distinct_update)

lemma attached_lines_simps [simp]:
  "attached_lines [] = []"
  "attached_lines (p # ps) = map fst (snd p) @ attached_lines ps"
  "attached_lines (ps @ qs) = attached_lines ps @ attached_lines qs"
  by (simp_all add: attached_lines_def)

lemma payload_ok_mono: "payload_ok rj vis p \<Longrightarrow> set vis \<subseteq> set vis' \<Longrightarrow> payload_ok rj vis' p"
  by (auto simp: payload_ok_def)

lemma hunk_loop_inv:
  "hunk_loop rj hs n st acc = Inr (pl, st', n', rest) \<Longrightarrow>
   \<exists>B Q vis. pl = acc @ B \<and> n # st = Q @ n' # st' \<and> hs = vis @ rest \<and>
     (st' = [] \<or> rest = []) \<and> (distinct (n # st) \<longrightarrow> distinct (attached_lines B)) \<and>
     set (attached_lines B) \<subseteq> set Q \<union> {n'} \<and> (\<forall>p\<in>set B. payload_ok rj vis p) \<and>
     (\<forall>v1 v2. vis = v1 @ v2 \<and> v1 \<noteq> [] \<and> v2 \<noteq> [] \<longrightarrow> stack_left_after rj v1 n st acc)"
proof (induction hs arbitrary: n st acc)
  case Nil
  then show ?case by auto
next
  case (Cons h hs)
  from Cons.prems(1) obtain n1 st1 rpc where
    aw: "attach_while h rj n st [] = Inr (n1, st1, rpc)"
    by (auto split: sum.splits)
  define acc' where "acc' = (if rpc \<noteq> [] then acc @ [(h, rpc)] else acc)"
  define B1 where "B1 = (if rpc \<noteq> [] then [(h, rpc)] else [])"
  have acc': "acc' = acc @ B1" by (simp add: acc'_def B1_def)
  have al1: "attached_lines B1 = map fst rpc" by (simp add: B1_def)
  from attach_while_keys [OF aw] obtain Q1 where Q1: "n # st = Q1 @ n1 # st1"
    and keys: "(\<not> in_hunk h n1 \<and> fst ` set rpc = set Q1) \<or>
      (st1 = [] \<and> in_hunk h n1 \<and> fst ` set rpc = set Q1 \<union> {n1})"
    by auto
  have d1: "distinct (map fst rpc)" using attach_while_distinct [OF aw] by simp
  have ok1: "\<forall>p\<in>set B1. payload_ok rj [h] p"
    using attach_while_entries [OF aw] by (auto simp: B1_def payload_ok_def)
  show ?case
  proof (cases "st1 = []")
    case True
    with Cons.prems(1) aw have res: "pl = acc'" "st' = []" "n' = n1" "rest = hs"
      by (auto simp: acc'_def Let_def)
    have sub: "set (attached_lines B1) \<subseteq> set Q1 \<union> {n1}" using keys al1 by auto
    have pre: "\<forall>v1 v2. [h] = v1 @ v2 \<and> v1 \<noteq> [] \<and> v2 \<noteq> [] \<longrightarrow> stack_left_after rj v1 n st acc"
      by (auto simp: append_eq_Cons_conv Cons_eq_append_conv)
    show ?thesis
      apply (rule exI [of _ B1], rule exI [of _ Q1], rule exI [of _ "[h]"])
      using res acc' Q1 True d1 al1 sub ok1 pre by simp
  next
    case False
    have step: "hunk_loop rj (h # us) n st acc = hunk_loop rj us n1 st1 acc'" for us
      using aw False by (simp add: acc'_def Let_def)
    from Cons.prems(1) have rec: "hunk_loop rj hs n1 st1 acc' = Inr (pl, st', n', rest)"
      by (simp only: step)
    from Cons.IH [OF rec] obtain B Q vis where
      IH: "pl = acc' @ B" "n1 # st1 = Q @ n' # st'" "hs = vis @ rest" "st' = [] \<or> rest = []"
          "distinct (n1 # st1) \<longrightarrow> distinct (attached_lines B)"
          "set (attached_lines B) \<subseteq> set Q \<union> {n'}"
          "\<forall>p\<in>set B. payload_ok rj vis p"
          "\<forall>v1 v2. vis = v1 @ v2 \<and> v1 \<noteq> [] \<and> v2 \<noteq> [] \<longrightarrow> stack_left_after rj v1 n1 st1 acc'"
      by blast
    from keys False have k1: "fst ` set rpc = set Q1" by auto
    have dB: "distinct (attached_lines (B1 @ B))" if dist: "distinct (n # st)"
    proof -
      have dist1: "distinct (n1 # st1)" using dist Q1 by (metis distinct_append)
      have disj: "set Q1 \<inter> (set Q \<union> {n'}) = {}"
        using dist Q1 IH(2) by auto
      show ?thesis using d1 IH(5) IH(6) k1 disj al1 dist1 by auto
    qed
    have sB: "set (attached_lines (B1 @ B)) \<subseteq> set (Q1 @ Q) \<union> {n'}"
      using IH(6) k1 al1 by auto
    have okB: "\<forall>p\<in>set (B1 @ B). payload_ok rj (h # vis) p"
      using ok1 IH(7) by (auto intro: payload_ok_mono)
    have pre: "stack_left_after rj v1 n st acc" if "h # vis = v1 @ v2" "v1 \<noteq> []" "v2 \<noteq> []" for v1 v2
    proof -
      from that obtain w where w: "v1 = h # w" "vis = w @ v2"
        by (auto simp: Cons_eq_append_conv)
      show ?thesis
      proof (cases "w = []")
        case True
        have "hunk_loop rj [h] n st acc = Inr (acc', st1, n1, [])"
          by (simp only: step hunk_loop.simps(1))
        then show ?thesis using w True False by (simp only: stack_left_after_def) blast
      next
        case wne: False
        with IH(8) w that(3) have "stack_left_after rj w n1 st1 acc'" by blast
        then show ?thesis unfolding w stack_left_after_def by (simp only: step)
      qed
    qed
    show ?thesis
      apply (rule exI [of _ "B1 @ B"], rule exI [of _ "Q1 @ Q"], rule exI [of _ "h # vis"])
      using IH(1-4) acc' Q1 dB sB okB pre by simp
  qed
qed

lemma attach_while_returns:
  "\<forall>k\<in>set (n # st). map_of rj (str_int k) \<noteq> None \<Longrightarrow> \<exists>r. attach_while h rj n st acc = Inr r"
  by (induction st arbitrary: n acc) auto

lemma hunk_loop_returns:
  "\<forall>k\<in>set (n # st). map_of rj (str_int k) \<noteq> None \<Longrightarrow> \<exists>r. hunk_loop rj hs n st acc = Inr r"
proof (induction hs arbitrary: n st acc)
  case Nil
  then show ?case by simp
next
  case (Cons h hs)
  from attach_while_returns [OF Cons.prems, of h "[]"] obtain n1 st1 rpc where
    aw: "attach_while h rj n st [] = Inr (n1, st1, rpc)" by (metis prod_cases3)
  from attach_while_keys [OF aw] obtain Q where "n # st = Q @ n1 # st1" by blast
  then have "set (n # st) = set (Q @ n1 # st1)" by (rule arg_cong)
  then have "set (n1 # st1) \<subseteq> set (n # st)" by auto
  with Cons.prems have "\<forall>k\<in>set (n1 # st1). map_of rj (str_int k) \<noteq> None" by blast
  from Cons.IH [OF this] show ?case using aw by (simp add: Let_def)
qed

lemma hunk_loop_not_IndexError: "hunk_loop rj hs n st acc \<noteq> Inl IndexError"
proof (induction hs arbitrary: n st acc)
  case Nil show ?case by simp
next
  case (Cons h hs)
  have "attach_while h rj m s a \<noteq> Inl IndexError" for m s a
    by (induction s arbitrary: m a) (auto split: option.splits)
  then show ?case using Cons.IH
    by (auto split: sum.splits simp: Let_def)
qed

lemma merge_review_returns:
  "stack \<noteq> [] \<Longrightarrow> \<forall>k\<in>set stack. map_of review_json (str_int k) \<noteq> None \<Longrightarrow>
   \<exists>r. merge_review units review_json stack = Inr r"
  using hunk_loop_returns [of _ _ review_json units "[]"]
  by (cases stack) (auto simp: merge_review_def)

lemma parse_apply_IndexError_iff:
  "parse_apply_review_per_code_hunk dumps code_changes review_json line_number_stack
      = Inl IndexError \<longleftrightarrow> line_number_stack = []"
  using hunk_loop_not_IndexError [of review_json code_changes]
  by (auto simp: parse_apply_review_per_code_hunk_def merge_review_def
      split: list.splits sum.splits)

lemma group_loop_not_IndexError:
  "group_loop tools prompt_tokens review_json groups line_number_stack chunks \<noteq> Inl IndexError"
proof (induction groups arbitrary: line_number_stack chunks)
  case Nil
  show ?case by simp
next
  case (Cons g groups)
  show ?case
  proof (cases "line_number_stack = []")
    case True
    then show ?thesis by simp
  next
    case False
    then have "parse_apply_review_per_code_hunk (json_dumps_entries tools) g review_json
        line_number_stack \<noteq> Inl IndexError"
      by (simp add: parse_apply_IndexError_iff)
    with False Cons.IH show ?thesis
      by (cases "parse_apply_review_per_code_hunk (json_dumps_entries tools) g review_json
        line_number_stack") (simp_all split: prod.splits)
  qed
qed

text \<open>
  Claim C1. The claim: an entry is attached to a hunk exactly when its line number lies in
  the closed interval from \<open>start_line\<close> to \<open>end_line\<close>, and a hunk with a degenerate
  \<open>end_line\<close> matches nothing. The loop tests \<open>start_line \<le> n < start_line + end_line\<close>
  instead, although \<open>format_git_diff\<close> stores an absolute line number in \<open>end_line\<close>.
  For the hunk of the lines 10 to 12 the entry of line 15 is attached, and the hunk
  without lines that starts at line 5 (\<open>end_line = 4\<close>) takes the entry of line 7.
\<close>

theorem merge_review_beyond_end_line:
  "merge_review [\<lparr>start_line = 10, end_line = 12, code = ''c''\<rparr>]
     [(''15'', \<lparr>feedback = ''f'', suggestion = None\<rparr>)] [15]
   = Inr ([(\<lparr>start_line = 10, end_line = 12, code = ''c''\<rparr>,
            [(15, \<lparr>feedback = ''f'', suggestion = None\<rparr>)])], [], 15, [])
   \<and> \<not> (10 \<le> (15::int) \<and> (15::int) \<le> 12)
   \<and> merge_review [\<lparr>start_line = 5, end_line = 4, code = ''c''\<rparr>]
     [(''7'', \<lparr>feedback = ''f'', suggestion = None\<rparr>)] [7]
   = Inr ([(\<lparr>start_line = 5, end_line = 4, code = ''c''\<rparr>,
            [(7, \<lparr>feedback = ''f'', suggestion = None\<rparr>)])], [], 7, [])"
  by (simp add: merge_review_def in_hunk_def str_int_def str_nat.simps digit_char_def)

text \<open>
  What holds of every call of the merge that returns: the numbers popped are a block at
  the top of the stack, each popped once, the last of them the current line number, and
  the stack that is left is the rest, untouched; every attached line number is one of
  them. When the stack holds no number twice, no line number is attached twice, so no
  entry belongs to two hunks. The loop ends with an empty stack or with all hunks
  visited, and never earlier: after each visited hunk but the last the stack was not
  empty. Every payload belongs to a visited hunk, has an entry, and each of its entries
  passed the test of the loop for this hunk and is the entry of the review for its line.
\<close>

lemma merge_review_invariants:
  assumes run: "merge_review units review_json stack = Inr (payload, stack', n', rest)"
  shows "(\<exists>popped. stack = popped @ stack' \<and> popped \<noteq> [] \<and> last popped = n'
            \<and> set (attached_lines payload) \<subseteq> set popped)
       \<and> (distinct stack \<longrightarrow> distinct (attached_lines payload))
       \<and> (\<exists>visited. units = visited @ rest \<and> (stack' = [] \<or> rest = [])
            \<and> (\<forall>p\<in>set payload. payload_ok review_json visited p)
            \<and> (\<forall>v1 v2. visited = v1 @ v2 \<and> v1 \<noteq> [] \<and> v2 \<noteq> [] \<longrightarrow>
                  (\<exists>pl s m. merge_review v1 review_json stack = Inr (pl, s, m, []) \<and> s \<noteq> [])))"
proof -
  from run obtain n st where st: "stack = n # st"
    and loop: "hunk_loop review_json units n st [] = Inr (payload, stack', n', rest)"
    by (auto simp: merge_review_def split: list.splits)
  from hunk_loop_inv [OF loop] obtain B Q vis where
    inv: "payload = [] @ B" "n # st = Q @ n' # stack'" "units = vis @ rest"
         "stack' = [] \<or> rest = []"
         "distinct (n # st) \<longrightarrow> distinct (attached_lines B)"
         "set (attached_lines B) \<subseteq> set Q \<union> {n'}"
         "\<forall>p\<in>set B. payload_ok review_json vis p"
         "\<forall>v1 v2. vis = v1 @ v2 \<and> v1 \<noteq> [] \<and> v2 \<noteq> [] \<longrightarrow> stack_left_after review_json v1 n st []"
    by blast
  have B: "B = payload" using inv(1) by simp
  have one: "\<exists>popped. stack = popped @ stack' \<and> popped \<noteq> [] \<and> last popped = n'
            \<and> set (attached_lines payload) \<subseteq> set popped"
    apply (rule exI [of _ "Q @ [n']"])
    using inv(2) inv(6) st B by auto
  have two: "distinct stack \<longrightarrow> distinct (attached_lines payload)"
    using inv(5) st B by simp
  have pre: "\<forall>v1 v2. vis = v1 @ v2 \<and> v1 \<noteq> [] \<and> v2 \<noteq> [] \<longrightarrow>
      (\<exists>pl s m. merge_review v1 review_json stack = Inr (pl, s, m, []) \<and> s \<noteq> [])"
    using inv(8) st by (simp add: merge_review_def stack_left_after_def)
  have three: "\<exists>visited. units = visited @ rest \<and> (stack' = [] \<or> rest = [])
            \<and> (\<forall>p\<in>set payload. payload_ok review_json visited p)
            \<and> (\<forall>v1 v2. visited = v1 @ v2 \<and> v1 \<noteq> [] \<and> v2 \<noteq> [] \<longrightarrow>
                  (\<exists>pl s m. merge_review v1 review_json stack = Inr (pl, s, m, []) \<and> s \<noteq> []))"
    apply (rule exI [of _ vis])
    using inv(3) inv(4) inv(7) B pre by simp
  from one two three show ?thesis by blast
qed

lemma merge_review_invariants_example:
  "merge_review
     [\<lparr>start_line = 1, end_line = 10, code = ''a''\<rparr>,
      \<lparr>start_line = 15, end_line = 10, code = ''b''\<rparr>,
      \<lparr>start_line = 40, end_line = 10, code = ''c''\<rparr>]
     [(''5'', ''e5''), (''7'', ''e7''), (''20'', ''e20''), (''90'', ''e90''), (''91'', ''e91'')]
     [5, 7, 20, 90, 91]
   = Inr ([(\<lparr>start_line = 1, end_line = 10, code = ''a''\<rparr>, [(5, ''e5''), (7, ''e7'')]),
           (\<lparr>start_line = 15, end_line = 10, code = ''b''\<rparr>, [(20, ''e20'')])],
          [91], 90, [])
   \<and> (\<exists>popped. [5, 7, 20, 90, 91] = popped @ [91] \<and> popped \<noteq> [] \<and> last popped = (90::int))
   \<and> distinct (attached_lines
        [(\<lparr>start_line = 1, end_line = 10, code = ''a''\<rparr>, [(5::int, ''e5''), (7, ''e7'')]),
         (\<lparr>start_line = 15, end_line = 10, code = ''b''\<rparr>, [(20, ''e20'')])])"
proof -
  have run: "merge_review
     [\<lparr>start_line = 1, end_line = 10, code = ''a''\<rparr>,
      \<lparr>start_line = 15, end_line = 10, code = ''b''\<rparr>,
      \<lparr>start_line = 40, end_line = 10, code = ''c''\<rparr>]
     [(''5'', ''e5''), (''7'', ''e7''), (''20'', ''e20''), (''90'', ''e90''), (''91'', ''e91'')]
     [5, 7, 20, 90, 91]
   = Inr ([(\<lparr>start_line = 1, end_line = 10, code = ''a''\<rparr>, [(5, ''e5''), (7, ''e7'')]),
           (\<lparr>start_line = 15, end_line = 10, code = ''b''\<rparr>, [(20, ''e20'')])],
          [91], 90, [])"
    by (simp add: merge_review_def in_hunk_def str_int_def str_nat.simps digit_char_def)
  from merge_review_invariants [OF run] show ?thesis
    using run by simp
qed

text \<open>
  Claim C6. The claim: each line number is popped at most once, no entry is attached to
  two hunks, the merge ends exactly when the stack is empty or all hunks are visited, and
  an entry that matches a hunk is attached to exactly that hunk. The first three hold
  (\<open>merge_review_invariants\<close>); the last does not. With the hunks of the lines 10 to
  12 and 15 to 17 and the entries of the lines 15 and 16, both entries lie in the second
  hunk and both are attached to the first, whose test is
  \<open>start_line \<le> n < start_line + end_line\<close>; the second hunk is never visited. With
  the hunks of the lines 1 to 3 and 5 to 7 and the entries of the lines 2 and 6, the
  number 6 is popped while the first hunk is visited, fails its test, and the loop
  breaks on the empty stack: the entry of line 6, which matches the second hunk under
  either test, is attached nowhere.
\<close>

theorem merge_review_matching_entry_elsewhere:
  "merge_review
     [\<lparr>start_line = 10, end_line = 12, code = ''a''\<rparr>,
      \<lparr>start_line = 15, end_line = 17, code = ''b''\<rparr>]
     [(''15'', \<lparr>feedback = ''f'', suggestion = None\<rparr>),
      (''16'', \<lparr>feedback = ''g'', suggestion = None\<rparr>)]
     [15, 16]
   = Inr ([(\<lparr>start_line = 10, end_line = 12, code = ''a''\<rparr>,
            [(15, \<lparr>feedback = ''f'', suggestion = None\<rparr>),
             (16, \<lparr>feedback = ''g'', suggestion = None\<rparr>)])],
          [], 16, [\<lparr>start_line = 15, end_line = 17, code = ''b''\<rparr>])
   \<and> (15 \<le> (15::int) \<and> (15::int) \<le> 17) \<and> \<not> (10 \<le> (15::int) \<and> (15::int) \<le> 12)
   \<and> merge_review
     [\<lparr>start_line = 1, end_line = 3, code = ''a''\<rparr>,
      \<lparr>start_line = 5, end_line = 7, code = ''b''\<rparr>]
     [(''2'', \<lparr>feedback = ''f'', suggestion = None\<rparr>),
      (''6'', \<lparr>feedback = ''g'', suggestion = None\<rparr>)]
     [2, 6]
   = Inr ([(\<lparr>start_line = 1, end_line = 3, code = ''a''\<rparr>,
            [(2, \<lparr>feedback = ''f'', suggestion = None\<rparr>)])],
          [], 6, [\<lparr>start_line = 5, end_line = 7, code = ''b''\<rparr>])
   \<and> (5 \<le> (6::int) \<and> (6::int) \<le> 7)
   \<and> in_hunk \<lparr>start_line = 5, end_line = 7, code = ''b''\<rparr> 6"
  by (simp add: merge_review_def in_hunk_def str_int_def str_nat.simps digit_char_def)

text \<open>
  Claim C10. The merge raises \<open>IndexError\<close> exactly when it is called with an empty
  stack: its first \<open>pop()\<close> is not guarded, the later ones are. The loop over the
  marker groups in \<open>apply_review\<close> breaks on an empty stack before it calls the merge,
  so it never raises \<open>IndexError\<close>.
\<close>

theorem parse_apply_review_IndexError:
  "(parse_apply_review_per_code_hunk dumps code_changes review_json line_number_stack
      = Inl IndexError \<longleftrightarrow> line_number_stack = [])
   \<and> group_loop tools prompt_tokens review_json groups line_number_stack chunks
      \<noteq> Inl IndexError"
  by (simp only: parse_apply_IndexError_iff group_loop_not_IndexError simp_thms)

section \<open>Properties of the choice of code chunks\<close>

lemma payload_loop_filter:
  "payload_loop tools pt chunk_payload acc = acc @ filter (chunk_fits tools pt) chunk_payload"
  by (induction chunk_payload arbitrary: acc) (simp_all add: chunk_fits_def)

lemma group_loop_filter:
  "group_loop tools pt review_json groups stack acc =
     (case merged_payloads (json_dumps_entries tools) review_json groups stack of
        Inl e \<Rightarrow> Inl e
      | Inr (payloads, stack') \<Rightarrow> Inr (acc @ filter (chunk_fits tools pt) payloads, stack'))"
proof (induction groups arbitrary: stack acc)
  case Nil
  show ?case by simp
next
  case (Cons g groups)
  show ?case
  proof (cases "stack = []")
    case True
    then show ?thesis by simp
  next
    case False
    show ?thesis
    proof (cases "parse_apply_review_per_code_hunk (json_dumps_entries tools) g review_json stack")
      case (Inl e)
      with False show ?thesis by simp
    next
      case (Inr r)
      obtain cp st1 where r: "r = (cp, st1)" by (cases r)
      show ?thesis
        using False Inr r Cons.IH [of st1]
        by (cases "cp = []")
           (simp_all add: payload_loop_filter split: sum.splits prod.splits)
    qed
  qed
qed

text \<open>
  Claim C5. When the loop over the marker groups returns, the chunks it has chosen are
  the payloads of the merge, in their order, whose tokens with the tokens of the prompt
  are at most 2048; a payload above 2048 is in no chosen chunk.
\<close>

theorem budget_splitter_drops_oversized:
  assumes "group_loop tools prompt_tokens review_json groups stack [] = Inr (batches, stack')"
  shows "\<exists>payloads. merged_payloads (json_dumps_entries tools) review_json groups stack
             = Inr (payloads, stack')
           \<and> batches = filter (\<lambda>chunk. count_tokens tools (json_dumps_text tools chunk)
                                          + prompt_tokens \<le> 2048) payloads
           \<and> (\<forall>chunk\<in>set payloads.
                 2048 < count_tokens tools (json_dumps_text tools chunk) + prompt_tokens
                 \<longrightarrow> chunk \<notin> set batches)"
proof -
  from assms obtain payloads where
    m: "merged_payloads (json_dumps_entries tools) review_json groups stack = Inr (payloads, stack')"
    and b: "batches = filter (chunk_fits tools prompt_tokens) payloads"
    by (auto simp: group_loop_filter split: sum.splits)
  have "chunk_fits tools prompt_tokens = (\<lambda>chunk. count_tokens tools (json_dumps_text tools chunk)
                                          + prompt_tokens \<le> 2048)"
    by (rule ext) (simp add: chunk_fits_def)
  with m b show ?thesis by auto
qed

theorem budget_splitter_witness:
  "group_loop
     \<lparr>count_tokens = (\<lambda>s. if contains s ''big'' then 2500 else 10),
      json_dumps_text = (\<lambda>s. s),
      json_dumps_entries = (\<lambda>es. ''{}''),
      parse_string_to_int = (\<lambda>s. Inr 0)\<rparr>
     100 [(''5'', ''e5''), (''20'', ''e20''), (''99'', ''e99'')]
     [[\<lparr>start_line = 1, end_line = 10, code = ''small''\<rparr>,
       \<lparr>start_line = 15, end_line = 10, code = ''big''\<rparr>]]
     [5, 20, 99] []
   = Inr ([''small\<newline>{}\<newline>''], [])
   \<and> merged_payloads (\<lambda>es. ''{}'') [(''5'', ''e5''), (''20'', ''e20''), (''99'', ''e99'')]
     [[\<lparr>start_line = 1, end_line = 10, code = ''small''\<rparr>,
       \<lparr>start_line = 15, end_line = 10, code = ''big''\<rparr>]]
     [5, 20, 99]
   = Inr ([''small\<newline>{}\<newline>'', ''big\<newline>{}\<newline>''], [])"
proof -
  let ?tools = "\<lparr>count_tokens = (\<lambda>s. if contains s ''big'' then 2500 else 10),
      json_dumps_text = (\<lambda>s. s),
      json_dumps_entries = (\<lambda>es. ''{}''),
      parse_string_to_int = (\<lambda>s. Inr 0)\<rparr> :: string review_tools"
  let ?rj = "[(''5'', ''e5''), (''20'', ''e20''), (''99'', ''e99'')]"
  let ?groups = "[[\<lparr>start_line = 1, end_line = 10, code = ''small''\<rparr>,
       \<lparr>start_line = 15, end_line = 10, code = ''big''\<rparr>]]"
  have m: "merged_payloads (\<lambda>es. ''{}'') ?rj ?groups [5, 20, 99]
      = Inr ([''small\<newline>{}\<newline>'', ''big\<newline>{}\<newline>''], [])"
    by (simp add: parse_apply_review_per_code_hunk_def merge_review_def in_hunk_def
        str_int_def str_nat.simps digit_char_def hunk_payload_def)
  have run: "group_loop ?tools 100 ?rj ?groups [5, 20, 99] []
      = Inr ([''small\<newline>{}\<newline>''], [])"
    by (simp add: parse_apply_review_per_code_hunk_def merge_review_def in_hunk_def
        str_int_def str_nat.simps digit_char_def hunk_payload_def startswith_def)
  from budget_splitter_drops_oversized [OF run] m run
  show ?thesis by simp
qed

section \<open>Properties of the filter\<close>

lemma startswith_iff: "startswith s p \<longleftrightarrow> (\<exists>post. s = p @ post)"
proof
  assume "startswith s p"
  then have "s = p @ drop (length p) s"
    by (metis append_take_drop_id startswith_def)
  then show "\<exists>post. s = p @ post" ..
next
  assume "\<exists>post. s = p @ post"
  then show "startswith s p" by (auto simp: startswith_def)
qed

lemma contains_iff: "contains s p \<longleftrightarrow> (\<exists>pre post. s = pre @ p @ post)"
proof (induction s)
  case Nil
  show ?case by auto
next
  case (Cons c r)
  show ?case
  proof
    assume "contains (c # r) p"
    then consider "startswith (c # r) p" | "contains r p" by auto
    then show "\<exists>pre post. c # r = pre @ p @ post"
    proof cases
      case 1
      then obtain post where "c # r = p @ post" by (auto simp: startswith_iff)
      then have "c # r = [] @ p @ post" by simp
      then show ?thesis by blast
    next
      case 2
      with Cons.IH obtain pre post where "r = pre @ p @ post" by blast
      then have "c # r = (c # pre) @ p @ post" by simp
      then show ?thesis by blast
    qed
  next
    assume "\<exists>pre post. c # r = pre @ p @ post"
    then obtain pre post where eq: "c # r = pre @ p @ post" by blast
    show "contains (c # r) p"
    proof (cases pre)
      case Nil
      with eq have "startswith (c # r) p" by (auto simp: startswith_iff)
      then show ?thesis by simp
    next
      case (Cons a pre')
      with eq have "r = pre' @ p @ post" by simp
      with Cons.IH have "contains r p" by blast
      then show ?thesis by simp
    qed
  qed
qed

lemma contains_lower_iff: "contains (lower fb) p \<longleftrightarrow> mentions fb p"
proof -
  have "(\<exists>pre post. lower fb = pre @ p @ post) \<longleftrightarrow> (\<exists>pre q post. fb = pre @ q @ post \<and> lower q = p)"
  proof
    assume "\<exists>pre post. lower fb = pre @ p @ post"
    then obtain pre post where "map lower_char fb = pre @ p @ post" by (auto simp: lower_def)
    then obtain a b where ab: "fb = a @ b" "pre = map lower_char a" "p @ post = map lower_char b"
      unfolding map_eq_append_conv by blast
    from ab(3) have "map lower_char b = p @ post" by simp
    then obtain q c where "b = q @ c" "p = map lower_char q" "post = map lower_char c"
      unfolding map_eq_append_conv by blast
    with ab show "\<exists>pre q post. fb = pre @ q @ post \<and> lower q = p"
      by (auto simp: lower_def)
  next
    assume "\<exists>pre q post. fb = pre @ q @ post \<and> lower q = p"
    then obtain pre q post where "fb = pre @ q @ post" "lower q = p" by blast
    then have "lower fb = lower pre @ p @ lower post" by (simp add: lower_def)
    then show "\<exists>pre post. lower fb = pre @ p @ post" by blast
  qed
  then show ?thesis by (simp add: contains_iff mentions_def)
qed

lemma has_not_used_iff:
  "has_not_used_or_unused fb \<longleftrightarrow> (\<exists>p\<in>set flagged_phrases. mentions fb p)"
  by (simp add: has_not_used_or_unused_def flagged_phrases_def contains_lower_iff)

text \<open>
  Claim C9. \<open>remove_unused_suggestions\<close> keeps every file key, in order, and keeps of
  each file exactly the entries whose feedback mentions none of the seven phrases,
  whatever the case of the letters, unchanged and in order. In particular no entry that
  is left mentions \<open>unused\<close>.
\<close>

theorem remove_unused_suggestions_filters:
  "map fst (remove_unused_suggestions review_result) = map fst review_result
   \<and> (\<forall>i<length review_result.
         snd (remove_unused_suggestions review_result ! i)
         = filter (\<lambda>(line, val). \<not> (\<exists>p\<in>set flagged_phrases. mentions (feedback val) p))
             (snd (review_result ! i)))
   \<and> (\<forall>file file_data line val.
         (file, file_data) \<in> set (remove_unused_suggestions review_result)
         \<and> (line, val) \<in> set file_data \<longrightarrow> \<not> mentions (feedback val) ''unused'')"
proof (intro conjI)
  show "map fst (remove_unused_suggestions review_result) = map fst review_result"
    by (induction review_result) (auto simp: remove_unused_suggestions_def)
  show "\<forall>i<length review_result.
         snd (remove_unused_suggestions review_result ! i)
         = filter (\<lambda>(line, val). \<not> (\<exists>p\<in>set flagged_phrases. mentions (feedback val) p))
             (snd (review_result ! i))"
    by (simp add: remove_unused_suggestions_def has_not_used_iff split_def)
  show "\<forall>file file_data line val.
         (file, file_data) \<in> set (remove_unused_suggestions review_result)
         \<and> (line, val) \<in> set file_data \<longrightarrow> \<not> mentions (feedback val) ''unused''"
    by (auto simp: remove_unused_suggestions_def has_not_used_iff flagged_phrases_def)
qed

theorem remove_unused_suggestions_filters_witness:
  "remove_unused_suggestions
     [(''a.py'', [(''5'', \<lparr>feedback = ''Unused variable'', suggestion = None\<rparr>),
                 (''6'', \<lparr>feedback = ''Check the bounds'', suggestion = Some ''assert''\<rparr>)])]
   = [(''a.py'', [(''6'', \<lparr>feedback = ''Check the bounds'', suggestion = Some ''assert''\<rparr>)])]
   \<and> \<not> mentions ''Check the bounds'' ''unused''"
proof -
  let ?r = "[(''a.py'', [(''5'', \<lparr>feedback = ''Unused variable'', suggestion = None\<rparr>),
                 (''6'', \<lparr>feedback = ''Check the bounds'', suggestion = Some ''assert''\<rparr>)])]"
  have run: "remove_unused_suggestions ?r
      = [(''a.py'', [(''6'', \<lparr>feedback = ''Check the bounds'', suggestion = Some ''assert''\<rparr>)])]"
    by code_simp
  from remove_unused_suggestions_filters [of ?r]
  have "\<forall>file file_data line val.
         (file, file_data) \<in> set (remove_unused_suggestions ?r)
         \<and> (line, val) \<in> set file_data \<longrightarrow> \<not> mentions (feedback val) ''unused''"
    by blast
  then have "\<not> mentions ''Check the bounds'' ''unused''"
    unfolding run by simp
  with run show ?thesis by blast
qed

section \<open>Properties of the request\<close>

lemma parse_after_succeeds:
  "parse_after loads f x = Inr j \<longleftrightarrow> succeeds_in_layer loads (f x) j"
  by (auto simp: parse_after_def parse_review_result_def succeeds_in_layer_def split: sum.splits)

lemma parse_after_raises:
  "parse_after loads f x = Inl e \<longleftrightarrow> raises_in_layer loads (f x) e"
  by (auto simp: parse_after_def parse_review_result_def raises_in_layer_def split: sum.splits)

lemma parse_review_result_succeeds:
  "parse_review_result loads r = Inr j \<longleftrightarrow> succeeds_in_layer loads (Inr r) j"
  by (auto simp: parse_review_result_def succeeds_in_layer_def split: sum.splits)

lemma parse_review_result_raises:
  "parse_review_result loads r = Inl e \<longleftrightarrow> raises_in_layer loads (Inr r) e"
  by (auto simp: parse_review_result_def raises_in_layer_def split: sum.splits)

lemma request_review_empty:
  fixes srv :: "('p, 's) review_service"
  assumes "send_request srv (get_review_prompt srv code_to_review
             (4096 - count_prompt_tokens srv (get_review_prompt srv code_to_review 4096))) s = (r1, s1)"
    and "r1 = None \<or> r1 = Some []"
  shows "request_review srv code_to_review s = (Inr None, s1)"
  using assms unfolding request_review_def Let_def by auto

lemma request_review_cases:
  fixes srv :: "('p, 's) review_service" and code_to_review :: string
  defines "max_tokens \<equiv> 4096 - count_prompt_tokens srv (get_review_prompt srv code_to_review 4096)"
  defines "l1 \<equiv> \<lambda>r. parse_review_result (json_loads srv) r"
  defines "l2 \<equiv> \<lambda>r. parse_after (json_loads srv) (extract_content_from_markdown_code_block srv) (Some r)"
  defines "l3 \<equiv> \<lambda>r. parse_after (json_loads srv) (repair_truncated_json srv) r"
  defines "l4 \<equiv> \<lambda>r2. parse_after (json_loads srv) (extract_content_from_markdown_code_block srv) r2"
  assumes first: "send_request srv (get_review_prompt srv code_to_review max_tokens) s = (Some r, s1)"
    and ne: "r \<noteq> []"
    and second: "send_request srv (get_review_repair_prompt srv r ValueError max_tokens) s1 = (r2, s2)"
  shows "request_review srv code_to_review s =
     (case l1 r of Inr j \<Rightarrow> (Inr (Some j), s1)
      | Inl e1 \<Rightarrow> if e1 \<noteq> ValueError then (Inl e1, s1) else
     (case l2 r of Inr j \<Rightarrow> (Inr (Some j), s1)
      | Inl e2 \<Rightarrow> if e2 \<noteq> ValueError then (Inl e2, s1) else
     (case l3 r of Inr j \<Rightarrow> (Inr (Some j), s1)
      | Inl e3 \<Rightarrow> if e3 \<noteq> ValueError then (Inl e3, s1) else
     (case l4 r2 of Inr j \<Rightarrow> (Inr (Some j), s2)
      | Inl e4 \<Rightarrow> if e4 = ValueError then (Inr None, s2) else (Inl e4, s2)))))"
  using first ne second
  unfolding max_tokens_def l1_def l2_def l3_def l4_def request_review_def Let_def
  by (auto split: sum.splits prod.splits)

text \<open>
  Claim C7, as the specification words it: the function returns a review when a layer
  succeeds, and \<open>None\<close> exactly when the first answer is empty or every layer fails.
  Each \<open>except\<close> of the source catches \<open>ValueError\<close> only. For the answer \<open>[]\<close>,
  a JSON text that is no review, \<open>remove_unused_suggestions\<close> raises
  \<open>AttributeError\<close> in the first layer: no other layer is tried, no other answer is
  requested, and the function returns neither a review nor \<open>None\<close>, it raises.
\<close>

theorem request_review_raises_on_other_errors:
  "request_review
     \<lparr>get_review_prompt = (\<lambda>c n. c),
      get_review_repair_prompt = (\<lambda>r e n. r),
      count_prompt_tokens = (\<lambda>p. 10),
      send_request = (\<lambda>p s. (Some ''[]'', Suc s)),
      json_loads = (\<lambda>t. if t = ''[]'' then Inl AttributeError else Inl ValueError),
      extract_content_from_markdown_code_block =
        (\<lambda>t. case t of None \<Rightarrow> Inl TypeError | Some x \<Rightarrow> Inr x),
      repair_truncated_json = (\<lambda>t. Inr t)\<rparr>
     ''x'' (0::nat)
   = (Inl AttributeError, Suc 0)"
  by (simp add: request_review_def parse_review_result_def)

text \<open>
  Claim C7, amended. With the first answer of the service: an empty answer (nothing, or
  the empty text) gives \<open>None\<close>. Otherwise the answer is parsed as it is, then with the
  code fences stripped, then repaired, and then a new answer is requested and parsed
  with the fences stripped; a layer is tried only when every layer before it raised
  \<open>ValueError\<close>, and the new answer is requested only for the fourth layer. The review
  of the first layer that succeeds is returned, read by \<open>json.loads\<close> and filtered by
  \<open>remove_unused_suggestions\<close>; an exception other than \<open>ValueError\<close> raised in a
  layer leaves the function; and \<open>None\<close> is returned exactly when all four layers
  raise \<open>ValueError\<close>.
\<close>

theorem request_review_layers:
  fixes srv :: "('p, 's) review_service" and code_to_review :: string and s :: 's
  defines "max_tokens \<equiv> 4096 - count_prompt_tokens srv (get_review_prompt srv code_to_review 4096)"
  defines "loads \<equiv> json_loads srv"
  defines "fences_stripped \<equiv> extract_content_from_markdown_code_block srv"
  defines "repaired \<equiv> repair_truncated_json srv"
  defines "result \<equiv> request_review srv code_to_review s"
  assumes first: "send_request srv (get_review_prompt srv code_to_review max_tokens) s = (r1, s1)"
  shows "(r1 = None \<or> r1 = Some [] \<longrightarrow> result = (Inr None, s1))
    \<and> (\<forall>r r2 s2.
          r1 = Some r \<and> r \<noteq> []
          \<and> send_request srv (get_review_repair_prompt srv r ValueError max_tokens) s1 = (r2, s2)
          \<longrightarrow>
            (\<forall>j. succeeds_in_layer loads (Inr r) j \<longrightarrow> result = (Inr (Some j), s1))
          \<and> (\<forall>j. raises_in_layer loads (Inr r) ValueError
                 \<and> succeeds_in_layer loads (fences_stripped (Some r)) j
                \<longrightarrow> result = (Inr (Some j), s1))
          \<and> (\<forall>j. raises_in_layer loads (Inr r) ValueError
                 \<and> raises_in_layer loads (fences_stripped (Some r)) ValueError
                 \<and> succeeds_in_layer loads (repaired r) j
                \<longrightarrow> result = (Inr (Some j), s1))
          \<and> (\<forall>j. raises_in_layer loads (Inr r) ValueError
                 \<and> raises_in_layer loads (fences_stripped (Some r)) ValueError
                 \<and> raises_in_layer loads (repaired r) ValueError
                 \<and> succeeds_in_layer loads (fences_stripped r2) j
                \<longrightarrow> result = (Inr (Some j), s2))
          \<and> (\<forall>e. e \<noteq> ValueError \<and> raises_in_layer loads (Inr r) e
                \<longrightarrow> result = (Inl e, s1))
          \<and> (\<forall>e. e \<noteq> ValueError \<and> raises_in_layer loads (Inr r) ValueError
                 \<and> raises_in_layer loads (fences_stripped (Some r)) e
                \<longrightarrow> result = (Inl e, s1))
          \<and> (\<forall>e. e \<noteq> ValueError \<and> raises_in_layer loads (Inr r) ValueError
                 \<and> raises_in_layer loads (fences_stripped (Some r)) ValueError
                 \<and> raises_in_layer loads (repaired r) e
                \<longrightarrow> result = (Inl e, s1))
          \<and> (\<forall>e. e \<noteq> ValueError \<and> raises_in_layer loads (Inr r) ValueError
                 \<and> raises_in_layer loads (fences_stripped (Some r)) ValueError
                 \<and> raises_in_layer loads (repaired r) ValueError
                 \<and> raises_in_layer loads (fences_stripped r2) e
                \<longrightarrow> result = (Inl e, s2))
          \<and> (fst result = Inr None
                \<longleftrightarrow> raises_in_layer loads (Inr r) ValueError
                    \<and> raises_in_layer loads (fences_stripped (Some r)) ValueError
                    \<and> raises_in_layer loads (repaired r) ValueError
                    \<and> raises_in_layer loads (fences_stripped r2) ValueError))"
proof (intro conjI allI impI)
  assume "r1 = None \<or> r1 = Some []"
  with first show "result = (Inr None, s1)"
    unfolding result_def max_tokens_def by (rule request_review_empty)
next
  fix r r2 s2
  assume a: "r1 = Some r \<and> r \<noteq> []
      \<and> send_request srv (get_review_repair_prompt srv r ValueError max_tokens) s1 = (r2, s2)"
  define l1 where "l1 = parse_review_result loads r"
  define l2 where "l2 = parse_after loads fences_stripped (Some r)"
  define l3 where "l3 = parse_after loads repaired r"
  define l4 where "l4 = parse_after loads fences_stripped r2"
  have res: "result =
     (case l1 of Inr j \<Rightarrow> (Inr (Some j), s1)
      | Inl e1 \<Rightarrow> if e1 \<noteq> ValueError then (Inl e1, s1) else
     (case l2 of Inr j \<Rightarrow> (Inr (Some j), s1)
      | Inl e2 \<Rightarrow> if e2 \<noteq> ValueError then (Inl e2, s1) else
     (case l3 of Inr j \<Rightarrow> (Inr (Some j), s1)
      | Inl e3 \<Rightarrow> if e3 \<noteq> ValueError then (Inl e3, s1) else
     (case l4 of Inr j \<Rightarrow> (Inr (Some j), s2)
      | Inl e4 \<Rightarrow> if e4 = ValueError then (Inr None, s2) else (Inl e4, s2)))))"
    using request_review_cases [of srv code_to_review s r s1 r2 s2] first a
    unfolding result_def max_tokens_def l1_def l2_def l3_def l4_def loads_def
      fences_stripped_def repaired_def
    by simp
  have ok1: "succeeds_in_layer loads (Inr r) j \<longleftrightarrow> l1 = Inr j" for j
    by (simp add: l1_def parse_review_result_succeeds)
  have bad1: "raises_in_layer loads (Inr r) e \<longleftrightarrow> l1 = Inl e" for e
    by (simp add: l1_def parse_review_result_raises)
  have ok2: "succeeds_in_layer loads (fences_stripped (Some r)) j \<longleftrightarrow> l2 = Inr j" for j
    by (simp add: l2_def parse_after_succeeds)
  have bad2: "raises_in_layer loads (fences_stripped (Some r)) e \<longleftrightarrow> l2 = Inl e" for e
    by (simp add: l2_def parse_after_raises)
  have ok3: "succeeds_in_layer loads (repaired r) j \<longleftrightarrow> l3 = Inr j" for j
    by (simp add: l3_def parse_after_succeeds)
  have bad3: "raises_in_layer loads (repaired r) e \<longleftrightarrow> l3 = Inl e" for e
    by (simp add: l3_def parse_after_raises)
  have ok4: "succeeds_in_layer loads (fences_stripped r2) j \<longleftrightarrow> l4 = Inr j" for j
    by (simp add: l4_def parse_after_succeeds)
  have bad4: "raises_in_layer loads (fences_stripped r2) e \<longleftrightarrow> l4 = Inl e" for e
    by (simp add: l4_def parse_after_raises)
  note br = ok1 bad1 ok2 bad2 ok3 bad3 ok4 bad4
  { fix j assume "succeeds_in_layer loads (Inr r) j"
    then show "result = (Inr (Some j), s1)" by (simp add: br res) }
  { fix j assume "raises_in_layer loads (Inr r) ValueError
                 \<and> succeeds_in_layer loads (fences_stripped (Some r)) j"
    then show "result = (Inr (Some j), s1)" by (simp add: br res) }
  { fix j assume "raises_in_layer loads (Inr r) ValueError
                 \<and> raises_in_layer loads (fences_stripped (Some r)) ValueError
                 \<and> succeeds_in_layer loads (repaired r) j"
    then show "result = (Inr (Some j), s1)" by (simp add: br res) }
  { fix j assume "raises_in_layer loads (Inr r) ValueError
                 \<and> raises_in_layer loads (fences_stripped (Some r)) ValueError
                 \<and> raises_in_layer loads (repaired r) ValueError
                 \<and> succeeds_in_layer loads (fences_stripped r2) j"
    then show "result = (Inr (Some j), s2)" by (simp add: br res) }
  { fix e assume "e \<noteq> ValueError \<and> raises_in_layer loads (Inr r) e"
    then show "result = (Inl e, s1)" by (simp add: br res) }
  { fix e assume "e \<noteq> ValueError \<and> raises_in_layer loads (Inr r) ValueError
                 \<and> raises_in_layer loads (fences_stripped (Some r)) e"
    then show "result = (Inl e, s1)" by (simp add: br res) }
  { fix e assume "e \<noteq> ValueError \<and> raises_in_layer loads (Inr r) ValueError
                 \<and> raises_in_layer loads (fences_stripped (Some r)) ValueError
                 \<and> raises_in_layer loads (repaired r) e"
    then show "result = (Inl e, s1)" by (simp add: br res) }
  { fix e assume "e \<noteq> ValueError \<and> raises_in_layer loads (Inr r) ValueError
                 \<and> raises_in_layer loads (fences_stripped (Some r)) ValueError
                 \<and> raises_in_layer loads (repaired r) ValueError
                 \<and> raises_in_layer loads (fences_stripped r2) e"
    then show "result = (Inl e, s2)" by (simp add: br res) }
  show "fst result = Inr None
                \<longleftrightarrow> raises_in_layer loads (Inr r) ValueError
                    \<and> raises_in_layer loads (fences_stripped (Some r)) ValueError
                    \<and> raises_in_layer loads (repaired r) ValueError
                    \<and> raises_in_layer loads (fences_stripped r2) ValueError"
    unfolding br res by (auto split: sum.splits)
qed

theorem request_review_layers_witness:
  "request_review
     \<lparr>get_review_prompt = (\<lambda>c n. c),
      get_review_repair_prompt = (\<lambda>r e n. r),
      count_prompt_tokens = (\<lambda>p. 10),
      send_request = (\<lambda>p s. (Some ''fenced'', Suc s)),
      json_loads = (\<lambda>t. if t = ''{}'' then Inr [] else Inl ValueError),
      extract_content_from_markdown_code_block =
        (\<lambda>t. case t of None \<Rightarrow> Inl TypeError | Some x \<Rightarrow> Inr ''{}''),
      repair_truncated_json = (\<lambda>t. Inr t)\<rparr>
     ''x'' (0::nat)
   = (Inr (Some []), Suc 0)
   \<and> fst (request_review
     \<lparr>get_review_prompt = (\<lambda>c n. c),
      get_review_repair_prompt = (\<lambda>r e n. r),
      count_prompt_tokens = (\<lambda>p. 10),
      send_request = (\<lambda>p s. (Some ''no json'', Suc s)),
      json_loads = (\<lambda>t. Inl ValueError),
      extract_content_from_markdown_code_block =
        (\<lambda>t. case t of None \<Rightarrow> Inl TypeError | Some x \<Rightarrow> Inr x),
      repair_truncated_json = (\<lambda>t. Inr t)\<rparr>
     ''x'' (0::nat))
   = Inr None"
proof
  let ?srv = "\<lparr>get_review_prompt = (\<lambda>c n. c),
      get_review_repair_prompt = (\<lambda>r e n. r),
      count_prompt_tokens = (\<lambda>p. 10),
      send_request = (\<lambda>p s. (Some ''fenced'', Suc s)),
      json_loads = (\<lambda>t. if t = ''{}'' then Inr [] else Inl ValueError),
      extract_content_from_markdown_code_block =
        (\<lambda>t. case t of None \<Rightarrow> Inl TypeError | Some x \<Rightarrow> Inr ''{}''),
      repair_truncated_json = (\<lambda>t. Inr t)\<rparr> :: (string, nat) review_service"
  have first: "send_request ?srv (get_review_prompt ?srv ''x''
      (4096 - count_prompt_tokens ?srv (get_review_prompt ?srv ''x'' 4096))) 0
      = (Some ''fenced'', Suc 0)"
    by simp
  have second: "send_request ?srv (get_review_repair_prompt ?srv ''fenced'' ValueError
      (4096 - count_prompt_tokens ?srv (get_review_prompt ?srv ''x'' 4096))) (Suc 0)
      = (Some ''fenced'', Suc (Suc 0))"
    by simp
  have l1: "raises_in_layer (json_loads ?srv) (Inr ''fenced'') ValueError"
    by (simp add: raises_in_layer_def)
  have l2: "succeeds_in_layer (json_loads ?srv)
      (extract_content_from_markdown_code_block ?srv (Some ''fenced'')) []"
    by (simp add: succeeds_in_layer_def remove_unused_suggestions_def)
  have pre: "Some ''fenced'' = Some ''fenced'' \<and> ''fenced'' \<noteq> []
      \<and> send_request ?srv (get_review_repair_prompt ?srv ''fenced'' ValueError
      (4096 - count_prompt_tokens ?srv (get_review_prompt ?srv ''x'' 4096))) (Suc 0)
      = (Some ''fenced'', Suc (Suc 0))"
    using second by simp
  note layers = request_review_layers [OF first, THEN conjunct2, THEN spec, of "''fenced''",
      THEN spec, of "Some ''fenced''", THEN spec, of "Suc (Suc 0)", THEN mp, OF pre]
  note fenced = layers [THEN conjunct2, THEN conjunct1, THEN spec, of "[]", THEN mp,
      OF conjI [OF l1 l2]]
  from fenced show "request_review ?srv ''x'' 0 = (Inr (Some []), Suc 0)" .
next
  let ?srv = "\<lparr>get_review_prompt = (\<lambda>c n. c),
      get_review_repair_prompt = (\<lambda>r e n. r),
      count_prompt_tokens = (\<lambda>p. 10),
      send_request = (\<lambda>p s. (Some ''no json'', Suc s)),
      json_loads = (\<lambda>t. Inl ValueError),
      extract_content_from_markdown_code_block =
        (\<lambda>t. case t of None \<Rightarrow> Inl TypeError | Some x \<Rightarrow> Inr x),
      repair_truncated_json = (\<lambda>t. Inr t)\<rparr> :: (string, nat) review_service"
  have first: "send_request ?srv (get_review_prompt ?srv ''x''
      (4096 - count_prompt_tokens ?srv (get_review_prompt ?srv ''x'' 4096))) 0
      = (Some ''no json'', Suc 0)"
    by simp
  have second: "send_request ?srv (get_review_repair_prompt ?srv ''no json'' ValueError
      (4096 - count_prompt_tokens ?srv (get_review_prompt ?srv ''x'' 4096))) (Suc 0)
      = (Some ''no json'', Suc (Suc 0))"
    by simp
  have l1: "raises_in_layer (json_loads ?srv) (Inr ''no json'') ValueError"
    by (simp add: raises_in_layer_def)
  have l2: "raises_in_layer (json_loads ?srv)
      (extract_content_from_markdown_code_block ?srv (Some ''no json'')) ValueError"
    by (simp add: raises_in_layer_def)
  have l3: "raises_in_layer (json_loads ?srv) (repair_truncated_json ?srv ''no json'') ValueError"
    by (simp add: raises_in_layer_def)
  have l4: "raises_in_layer (json_loads ?srv)
      (extract_content_from_markdown_code_block ?srv (Some ''no json'')) ValueError"
    by (simp add: raises_in_layer_def)
  have pre: "Some ''no json'' = Some ''no json'' \<and> ''no json'' \<noteq> []
      \<and> send_request ?srv (get_review_repair_prompt ?srv ''no json'' ValueError
      (4096 - count_prompt_tokens ?srv (get_review_prompt ?srv ''x'' 4096))) (Suc 0)
      = (Some ''no json'', Suc (Suc 0))"
    using second by simp
  note layers = request_review_layers [OF first, THEN conjunct2, THEN spec, of "''no json''",
      THEN spec, of "Some ''no json''", THEN spec, of "Suc (Suc 0)", THEN mp, OF pre]
  note none = layers [THEN conjunct2, THEN conjunct2, THEN conjunct2, THEN conjunct2,
      THEN conjunct2, THEN conjunct2, THEN conjunct2, THEN conjunct2, THEN iffD2,
      OF conjI [OF l1 conjI [OF l2 conjI [OF l3 l4]]]]
  from none show "fst (request_review ?srv ''x'' 0) = Inr None" .
qed

section \<open>Properties of the annotation of a hunk\<close>

lemma digit_char_is_digit: "d < 10 \<Longrightarrow> is_digit (digit_char d)"
proof -
  assume "d < 10"
  then have "d \<in> {0,1,2,3,4,5,6,7,8,9}" by auto
  then show ?thesis by (auto simp: digit_char_def is_digit_def)
qed

lemma digit_val_digit_char: "d < 10 \<Longrightarrow> digit_val (digit_char d) = d"
proof -
  assume "d < 10"
  then have "d \<in> {0,1,2,3,4,5,6,7,8,9}" by auto
  then show ?thesis by (auto simp: digit_char_def digit_val_def)
qed

lemma str_nat_digits: "\<forall>c\<in>set (str_nat n). is_digit c"
proof (induction n rule: str_nat.induct)
  case (1 n)
  show ?case
  proof (cases "n < 10")
    case True
    then show ?thesis by (simp add: str_nat.simps [of n] digit_char_is_digit)
  next
    case False
    with 1 show ?thesis
      by (simp add: str_nat.simps [of n] digit_char_is_digit)
  qed
qed

lemma str_nat_nonempty: "str_nat n \<noteq> []"
  by (simp add: str_nat.simps [of n])

lemma int_of_digits_snoc: "int_of_digits (s @ [c]) = 10 * int_of_digits s + digit_val c"
  by (simp add: int_of_digits_def)

lemma int_of_digits_str_nat: "int_of_digits (str_nat n) = n"
proof (induction n rule: str_nat.induct)
  case (1 n)
  show ?case
  proof (cases "n < 10")
    case True
    then show ?thesis
      by (simp add: str_nat.simps [of n] int_of_digits_def digit_val_digit_char)
  next
    case False
    with 1 have "int_of_digits (str_nat (n div 10)) = n div 10" by simp
    with False show ?thesis
      by (simp add: str_nat.simps [of n] int_of_digits_snoc digit_val_digit_char)
  qed
qed

lemma is_digit_not_special:
  "is_digit c \<Longrightarrow> c \<noteq> CHR '' '' \<and> c \<noteq> CHR '','' \<and> c \<noteq> CHR ''@'' \<and> c \<noteq> CHR ''-'' \<and> \<not> is_linebreak c"
  by (auto simp: is_digit_def is_linebreak_def)

lemma takeWhile_prefix:
  "\<forall>x\<in>set xs. P x \<Longrightarrow> ys = [] \<or> \<not> P (hd ys) \<Longrightarrow> takeWhile P (xs @ ys) = xs"
  by (induction xs) (auto simp: takeWhile_eq_Nil_iff)

lemma dropWhile_prefix:
  "\<forall>x\<in>set xs. P x \<Longrightarrow> ys = [] \<or> \<not> P (hd ys) \<Longrightarrow> dropWhile P (xs @ ys) = ys"
  by (induction xs) (auto simp: dropWhile_eq_self_iff)

lemma match_digits_str_nat:
  "rest = [] \<or> \<not> is_digit (hd rest) \<Longrightarrow> match_digits (str_nat n @ rest) = Some (str_nat n, rest)"
proof -
  assume r: "rest = [] \<or> \<not> is_digit (hd rest)"
  have t: "takeWhile is_digit (str_nat n @ rest) = str_nat n"
    using str_nat_digits [of n] r by (rule takeWhile_prefix)
  have d: "dropWhile is_digit (str_nat n @ rest) = rest"
    using str_nat_digits [of n] r by (rule dropWhile_prefix)
  show ?thesis
    unfolding match_digits_def t d using str_nat_nonempty [of n] by simp
qed

lemma match_literal_append: "match_literal p (p @ s) = Some s"
  by (simp add: match_literal_def startswith_def)

lemma match_hunk_header_line:
  "match_hunk_header (hunk_header_line a b c d trailing @ rest)
     = Some ((str_nat a, str_nat b, str_nat c, str_nat d), trailing @ rest)"
proof -
  have lit1: "match_literal ''@@ -'' (''@@ -'' @ s) = Some s" for s by (rule match_literal_append)
  have lit2: "match_literal '','' ('','' @ s) = Some s" for s by (rule match_literal_append)
  have lit3: "match_literal '' +'' ('' +'' @ s) = Some s" for s by (rule match_literal_append)
  have lit4: "match_literal '' @@'' ('' @@'' @ s) = Some s" for s by (rule match_literal_append)
  have dig1: "match_digits (str_nat n @ '','' @ s) = Some (str_nat n, '','' @ s)" for n s
    by (rule match_digits_str_nat) (simp add: is_digit_def)
  have dig2: "match_digits (str_nat n @ '' +'' @ s) = Some (str_nat n, '' +'' @ s)" for n s
    by (rule match_digits_str_nat) (simp add: is_digit_def)
  have dig3: "match_digits (str_nat n @ '' @@'' @ s) = Some (str_nat n, '' @@'' @ s)" for n s
    by (rule match_digits_str_nat) (simp add: is_digit_def)
  have shape: "hunk_header_line a b c d trailing @ rest
      = ''@@ -'' @ (str_nat a @ '','' @ (str_nat b @ '' +'' @ (str_nat c @ '','' @
          (str_nat d @ '' @@'' @ (trailing @ rest)))))"
    by (simp add: hunk_header_line_def)
  show ?thesis
    unfolding shape match_hunk_header_def
    by (simp only: lit1 lit2 lit3 lit4 dig1 dig2 dig3 Option.bind.simps prod.case)
qed

lemma first_hunk_header_line:
  "first_hunk_header (hunk_header_line a b c d trailing @ rest)
     = Some (str_nat a, str_nat b, str_nat c, str_nat d)"
proof -
  obtain x xs where "hunk_header_line a b c d trailing @ rest = x # xs"
    by (cases "hunk_header_line a b c d trailing @ rest") (simp_all add: hunk_header_line_def)
  then show ?thesis
    using match_hunk_header_line [of a b c d trailing rest] by simp
qed

lemma splitlines_from_line:
  "no_linebreak l \<Longrightarrow> splitlines_from cur (l @ NL # rest) = (cur @ l) # splitlines_from [] rest"
proof (induction l arbitrary: cur)
  case Nil
  show ?case by (cases rest) (simp_all add: is_linebreak_def)
next
  case (Cons c l)
  then have c: "\<not> is_linebreak c" and l: "no_linebreak l" by (simp_all add: no_linebreak_def)
  from c have ncr: "c \<noteq> CR" by (auto simp: is_linebreak_def)
  obtain d r where dr: "l @ NL # rest = d # r" by (cases "l @ NL # rest") simp_all
  have "splitlines_from cur ((c # l) @ NL # rest) = splitlines_from (cur @ [c]) (l @ NL # rest)"
    using c ncr dr by simp
  also have "\<dots> = ((cur @ [c]) @ l) # splitlines_from [] rest" by (rule Cons.IH [OF l])
  finally show ?case by simp
qed

lemma splitlines_unlines: "\<forall>l\<in>set ls. no_linebreak l \<Longrightarrow> splitlines (unlines ls) = ls"
proof (induction ls)
  case Nil
  show ?case by (simp add: splitlines_def unlines_def)
next
  case (Cons l ls)
  then have "splitlines_from [] (unlines ls) = ls" by (simp add: splitlines_def)
  moreover have "no_linebreak l" using Cons.prems by simp
  ultimately show ?case
    by (simp add: splitlines_def unlines_def splitlines_from_line)
qed

lemma startswith_hd: "startswith l (c # p) \<Longrightarrow> l \<noteq> [] \<and> hd l = c"
  by (cases l) (auto simp: startswith_def)

lemma startswith_single: "l \<noteq> [] \<Longrightarrow> startswith l [c] \<longleftrightarrow> hd l = c"
  by (cases l) (auto simp: startswith_def)

lemma line_step_removed:
  "body_line l \<Longrightarrow> hd l = CHR ''-'' \<Longrightarrow> line_step st l = st"
  using startswith_hd [of l "CHR ''@''" "''@ -''"] startswith_single [of l "CHR ''-''"]
  by (auto simp: line_step_def body_line_def)

lemma line_step_retained:
  assumes "body_line l" "hd l \<noteq> CHR ''-''"
  shows "line_step st l = st\<lparr>line_counter := line_counter st + 1,
           chunk_formatted := chunk_formatted st @ str_int (line_counter st + 1) @ '' '' @ l @ [NL]\<rparr>"
proof -
  from assms have hd: "hd l = CHR '' '' \<or> hd l = CHR ''+''" by (auto simp: body_line_def)
  have "\<not> startswith l ''@@ -''" using startswith_hd [of l "CHR ''@''" "''@ -''"] hd by auto
  moreover have "\<not> startswith l ''---''" using startswith_hd [of l "CHR ''-''" "''--''"] hd by auto
  moreover have "\<not> startswith l ''-''" using startswith_hd [of l "CHR ''-''" "[]"] hd by auto
  ultimately show ?thesis by (simp add: line_step_def)
qed

lemma foldl_line_step_body:
  "\<forall>l\<in>set body. body_line l \<Longrightarrow>
   foldl line_step st body =
     st\<lparr>line_counter := line_counter st + int (length (retained body)),
        chunk_formatted := chunk_formatted st
          @ unlines (number_lines (line_counter st + 1) (retained body))\<rparr>"
proof (induction body arbitrary: st)
  case Nil
  show ?case by (simp add: retained_def unlines_def)
next
  case (Cons l body)
  then have l: "body_line l" and rest: "\<forall>l\<in>set body. body_line l" by simp_all
  show ?case
  proof (cases "hd l = CHR ''-''")
    case True
    then show ?thesis
      using Cons.IH [OF rest, of st] line_step_removed [OF l True]
      by (simp add: retained_def)
  next
    case False
    show ?thesis
      using Cons.IH [OF rest] line_step_retained [OF l False, of st] False
      by (simp add: retained_def unlines_def)
  qed
qed

lemma no_linebreak_append [simp]: "no_linebreak (a @ b) \<longleftrightarrow> no_linebreak a \<and> no_linebreak b"
  by (auto simp: no_linebreak_def)

lemma no_linebreak_str_nat [simp]: "no_linebreak (str_nat n)"
  using str_nat_digits [of n] is_digit_not_special by (auto simp: no_linebreak_def)

lemma hunk_header_line_props:
  assumes "no_linebreak trailing"
  shows "no_linebreak (hunk_header_line a b c d trailing)"
    and "startswith (hunk_header_line a b c d trailing) ''@@ -''"
proof -
  have lits: "no_linebreak ''@@ -''" "no_linebreak '',''" "no_linebreak '' +''" "no_linebreak '' @@''"
    by (simp_all add: no_linebreak_def is_linebreak_def)
  show "no_linebreak (hunk_header_line a b c d trailing)"
    unfolding hunk_header_line_def using assms lits by (simp only: no_linebreak_append no_linebreak_str_nat simp_thms)
  show "startswith (hunk_header_line a b c d trailing) ''@@ -''"
    by (simp add: hunk_header_line_def startswith_def)
qed

lemma annotate_well_formed_hunk:
  assumes "no_linebreak trailing" and body: "\<forall>l\<in>set body. body_line l"
  shows "annotate_hunk (hunk_text a b c d trailing body)
     = Inr (\<lparr>start_line = int c, end_line = int d + int c - 1,
              code = unlines (hunk_header_line a b c d trailing
                       # number_lines (int c) (retained body))\<rparr>,
            selection_marker (hunk_header_line a b c d trailing))"
proof -
  define h where "h = hunk_header_line a b c d trailing"
  define st0 where "st0 = \<lparr>line_counter = - 1 + int c, chunk_formatted = [],
      optional_selection_marker = []\<rparr>"
  have shape: "hunk_text a b c d trailing body = hunk_header_line a b c d trailing @ (NL # unlines body)"
    by (simp add: hunk_text_def unlines_def)
  have first: "first_hunk_header (hunk_text a b c d trailing body)
      = Some (str_nat a, str_nat b, str_nat c, str_nat d)"
    unfolding shape by (rule first_hunk_header_line)
  have "\<forall>l\<in>set (h # body). no_linebreak l"
    using hunk_header_line_props(1) [OF assms(1)] body by (auto simp: body_line_def h_def)
  then have lines: "splitlines (hunk_text a b c d trailing body) = h # body"
    unfolding hunk_text_def h_def by (rule splitlines_unlines)
  have "startswith h ''@@ -''" unfolding h_def by (rule hunk_header_line_props(2) [OF assms(1)])
  then have step: "line_step st0 h = st0\<lparr>chunk_formatted := h @ [NL],
      optional_selection_marker := selection_marker h\<rparr>"
    by (simp add: line_step_def st0_def)
  define st1 where "st1 = line_step st0 h"
  have st1: "line_counter st1 = - 1 + int c" "chunk_formatted st1 = h @ [NL]"
    "optional_selection_marker st1 = selection_marker h"
    unfolding st1_def step by (simp_all add: st0_def)
  have fold: "foldl line_step st0 (h # body) = foldl line_step st1 body"
    by (simp add: st1_def)
  define st2 where "st2 = foldl line_step st1 body"
  have st2: "chunk_formatted st2 = h @ [NL] @ unlines (number_lines (int c) (retained body))"
    "optional_selection_marker st2 = selection_marker h"
    unfolding st2_def foldl_line_step_body [OF body] by (simp_all add: st1)
  have code: "h @ [NL] @ unlines (number_lines (int c) (retained body))
      = unlines (h # number_lines (int c) (retained body))"
    by (simp add: unlines_def)
  have "annotate_hunk (hunk_text a b c d trailing body)
      = Inr (\<lparr>start_line = int c, end_line = int d + int c - 1, code = chunk_formatted st2\<rparr>,
             optional_selection_marker st2)"
    unfolding annotate_hunk_def first lines st2_def st1_def st0_def
    by (simp add: int_of_digits_str_nat Let_def)
  then show ?thesis using code by (simp only: st2 h_def)
qed

lemma str_int_chars: "str_int n \<noteq> [] \<and> (\<forall>c\<in>set (str_int n). is_digit c \<or> c = CHR ''-'')"
  using str_nat_digits str_nat_nonempty by (auto simp: str_int_def)

lemma no_linebreak_str_int [simp]: "no_linebreak (str_int k)"
proof -
  have "no_linebreak (CHR ''-'' # s) \<longleftrightarrow> no_linebreak s" for s
    by (simp add: no_linebreak_def is_linebreak_def)
  then show ?thesis by (simp add: str_int_def)
qed

lemma not_header_numbered: "\<not> is_header_line (str_int k @ s)"
proof
  assume "is_header_line (str_int k @ s)"
  then have "hd (str_int k @ s) = CHR ''@''"
    using startswith_hd [of "str_int k @ s" "CHR ''@''" "''@ -''"] by (simp add: is_header_line_def)
  moreover have "hd (str_int k @ s) = hd (str_int k)" using str_int_chars [of k] by simp
  moreover have "hd (str_int k) \<in> set (str_int k)" using str_int_chars [of k] by simp
  ultimately have "CHR ''@'' \<in> set (str_int k)" by simp
  with str_int_chars [of k] have "is_digit (CHR ''@'') \<or> CHR ''@'' = CHR ''-''" by blast
  then show False by (simp add: is_digit_def)
qed

lemma no_linebreak_Cons: "no_linebreak (c # s) \<longleftrightarrow> \<not> is_linebreak c \<and> no_linebreak s"
  by (simp add: no_linebreak_def)

lemma number_lines_length: "length (number_lines n ls) = length ls"
  by (induction ls arbitrary: n) simp_all

lemma number_lines_no_linebreak:
  "\<forall>l\<in>set ls. no_linebreak l \<Longrightarrow> \<forall>l\<in>set (number_lines n ls). no_linebreak l"
proof (induction ls arbitrary: n)
  case Nil
  show ?case by simp
next
  case (Cons l ls)
  have sp: "\<not> is_linebreak (CHR '' '')" by (simp add: is_linebreak_def)
  from Cons.prems have "no_linebreak l" "\<forall>l\<in>set ls. no_linebreak l" by simp_all
  with Cons.IH [of "n + 1"] sp show ?case by (simp add: no_linebreak_Cons)
qed

lemma number_lines_not_header: "\<forall>l\<in>set (number_lines n ls). \<not> is_header_line l"
  by (induction ls arbitrary: n) (simp_all add: not_header_numbered)

lemma strip_number_lines: "map strip_line_number (number_lines n ls) = ls"
proof (induction ls arbitrary: n)
  case Nil
  show ?case by simp
next
  case (Cons l ls)
  have "\<forall>c\<in>set (str_int n). c \<noteq> CHR '' ''"
    using str_int_chars [of n] is_digit_not_special by auto
  then have "dropWhile (\<lambda>c. c \<noteq> CHR '' '') (str_int n @ CHR '' '' # l) = CHR '' '' # l"
    by (intro dropWhile_prefix) simp_all
  then have "strip_line_number (str_int n @ '' '' @ l) = l"
    by (simp add: strip_line_number_def)
  with Cons.IH show ?case by simp
qed

lemma annotated_lines_well_formed:
  assumes "no_linebreak trailing" and body: "\<forall>l\<in>set body. body_line l"
    and run: "annotate_hunk (hunk_text a b c d trailing body) = Inr (u, m)"
  shows "splitlines (code u) = hunk_header_line a b c d trailing # number_lines (int c) (retained body)"
    and "annotated_lines u = number_lines (int c) (retained body)"
proof -
  define h where "h = hunk_header_line a b c d trailing"
  define ns where "ns = number_lines (int c) (retained body)"
  from run annotate_well_formed_hunk [OF assms(1) body, of a b c d]
  have "u = \<lparr>start_line = int c, end_line = int d + int c - 1,
      code = unlines (hunk_header_line a b c d trailing # number_lines (int c) (retained body))\<rparr>"
    by simp
  then have "code u = unlines (hunk_header_line a b c d trailing
      # number_lines (int c) (retained body))"
    by simp
  then have u: "code u = unlines (h # ns)" by (simp only: h_def ns_def)
  have "\<forall>l\<in>set (retained body). no_linebreak l"
    using body by (simp add: retained_def body_line_def)
  then have "\<forall>l\<in>set ns. no_linebreak l"
    unfolding ns_def by (rule number_lines_no_linebreak)
  moreover have "no_linebreak h" unfolding h_def by (rule hunk_header_line_props(1) [OF assms(1)])
  ultimately have "\<forall>l\<in>set (h # ns). no_linebreak l" by simp
  then have sl: "splitlines (code u) = h # ns"
    unfolding u by (rule splitlines_unlines)
  then show "splitlines (code u) = hunk_header_line a b c d trailing # number_lines (int c) (retained body)"
    by (simp only: h_def ns_def)
  have hh: "is_header_line h"
    unfolding h_def is_header_line_def by (rule hunk_header_line_props(2) [OF assms(1)])
  have "filter (\<lambda>l. \<not> is_header_line l) ns = ns"
    using number_lines_not_header [of "int c" "retained body"]
    by (simp only: ns_def filter_id_conv)
  with hh have "annotated_lines u = ns"
    by (simp add: annotated_lines_def sl)
  then show "annotated_lines u = number_lines (int c) (retained body)"
    by (simp only: ns_def)
qed

text \<open>
  Claim C4. For a well-formed hunk with the header numbers \<open>new_start\<close> and
  \<open>new_count\<close>, \<open>annotate_hunk\<close> returns a code chunk with \<open>start_line = new_start\<close>
  and \<open>end_line = new_start + new_count - 1\<close>. Its annotated lines are the retained
  lines of the body numbered from \<open>new_start\<close> on, so there are \<open>new_count\<close> of them
  and a removed line takes no number; the lines of its code are the header line, as it
  was, and the annotated lines.
\<close>

theorem annotate_hunk_well_formed:
  assumes "well_formed_hunk new_count trailing body"
  shows "\<exists>u m. annotate_hunk (hunk_text old_start old_count new_start new_count trailing body)
            = Inr (u, m)
          \<and> start_line u = int new_start
          \<and> end_line u = int new_start + int new_count - 1
          \<and> length (annotated_lines u) = new_count
          \<and> annotated_lines u = number_lines (int new_start) (retained body)
          \<and> splitlines (code u)
              = hunk_header_line old_start old_count new_start new_count trailing
                # annotated_lines u"
proof -
  from assms have t: "no_linebreak trailing" and body: "\<forall>l\<in>set body. body_line l"
    and cnt: "length (retained body) = new_count"
    by (simp_all add: well_formed_hunk_def)
  define u where "u = \<lparr>start_line = int new_start, end_line = int new_count + int new_start - 1,
      code = unlines (hunk_header_line old_start old_count new_start new_count trailing
               # number_lines (int new_start) (retained body))\<rparr>"
  define m where "m = selection_marker (hunk_header_line old_start old_count new_start new_count trailing)"
  have run: "annotate_hunk (hunk_text old_start old_count new_start new_count trailing body)
      = Inr (u, m)"
    unfolding u_def m_def by (rule annotate_well_formed_hunk [OF t body])
  have u: "start_line u = int new_start" "end_line u = int new_start + int new_count - 1"
    by (simp_all add: u_def)
  note al = annotated_lines_well_formed [OF t body run]
  have len: "length (annotated_lines u) = new_count"
    by (simp only: al(2) number_lines_length cnt)
  have sl: "splitlines (code u)
      = hunk_header_line old_start old_count new_start new_count trailing # annotated_lines u"
    by (simp only: al)
  from run u len al(2) sl show ?thesis by blast
qed

theorem annotate_hunk_well_formed_witness:
  "well_formed_hunk 4 [] ['' a'', ''-b'', ''+c'', ''+d'', '' e'']
   \<and> hunk_text 1 3 1 4 [] ['' a'', ''-b'', ''+c'', ''+d'', '' e'']
       = ''@@ -1,3 +1,4 @@\<newline> a\<newline>-b\<newline>+c\<newline>+d\<newline> e\<newline>''
   \<and> (\<exists>u m. annotate_hunk ''@@ -1,3 +1,4 @@\<newline> a\<newline>-b\<newline>+c\<newline>+d\<newline> e\<newline>'' = Inr (u, m)
          \<and> start_line u = 1 \<and> end_line u = 4 \<and> length (annotated_lines u) = 4)"
proof -
  have wf: "well_formed_hunk 4 [] ['' a'', ''-b'', ''+c'', ''+d'', '' e'']"
    by (simp add: well_formed_hunk_def body_line_def no_linebreak_def is_linebreak_def retained_def)
  have ht: "hunk_text 1 3 1 4 [] ['' a'', ''-b'', ''+c'', ''+d'', '' e'']
       = ''@@ -1,3 +1,4 @@\<newline> a\<newline>-b\<newline>+c\<newline>+d\<newline> e\<newline>''"
    by (simp add: hunk_text_def hunk_header_line_def unlines_def str_nat.simps digit_char_def)
  from annotate_hunk_well_formed [OF wf, where old_start = 1 and old_count = 3 and new_start = 1] show ?thesis
    using wf ht by auto
qed

text \<open>
  Claim C8. For a well-formed hunk, stripping the number from every annotated line of the
  code chunk gives the added and context lines of the body, as they were and in their
  order.
\<close>

theorem annotate_hunk_round_trip:
  assumes "well_formed_hunk new_count trailing body"
    and "annotate_hunk (hunk_text old_start old_count new_start new_count trailing body)
           = Inr (u, m)"
  shows "map strip_line_number (annotated_lines u) = filter (\<lambda>l. hd l \<noteq> CHR ''-'') body"
proof -
  from assms(1) have t: "no_linebreak trailing" and body: "\<forall>l\<in>set body. body_line l"
    by (simp_all add: well_formed_hunk_def)
  from annotated_lines_well_formed(2) [OF t body assms(2)]
  show ?thesis by (simp add: strip_number_lines retained_def)
qed

theorem annotate_hunk_round_trip_witness:
  "annotate_hunk ''@@ -1,3 +1,4 @@\<newline> a\<newline>-b\<newline>+c\<newline>+d\<newline> e\<newline>''
     = Inr (\<lparr>start_line = 1, end_line = 4,
              code = ''@@ -1,3 +1,4 @@\<newline>1  a\<newline>2 +c\<newline>3 +d\<newline>4  e\<newline>''\<rparr>, [])
   \<and> map strip_line_number (annotated_lines
         \<lparr>start_line = 1, end_line = 4,
          code = ''@@ -1,3 +1,4 @@\<newline>1  a\<newline>2 +c\<newline>3 +d\<newline>4  e\<newline>''\<rparr>)
       = ['' a'', ''+c'', ''+d'', '' e'']"
proof -
  have wf: "well_formed_hunk 4 [] ['' a'', ''-b'', ''+c'', ''+d'', '' e'']"
    by (simp add: well_formed_hunk_def body_line_def no_linebreak_def is_linebreak_def retained_def)
  have ht: "hunk_text 1 3 1 4 [] ['' a'', ''-b'', ''+c'', ''+d'', '' e'']
       = ''@@ -1,3 +1,4 @@\<newline> a\<newline>-b\<newline>+c\<newline>+d\<newline> e\<newline>''"
    by (simp add: hunk_text_def hunk_header_line_def unlines_def str_nat.simps digit_char_def)
  have run: "annotate_hunk ''@@ -1,3 +1,4 @@\<newline> a\<newline>-b\<newline>+c\<newline>+d\<newline> e\<newline>''
     = Inr (\<lparr>start_line = 1, end_line = 4,
              code = ''@@ -1,3 +1,4 @@\<newline>1  a\<newline>2 +c\<newline>3 +d\<newline>4  e\<newline>''\<rparr>, [])"
    by code_simp
  from annotate_hunk_round_trip [OF wf, where old_start = 1 and old_count = 3 and new_start = 1] run ht
  show ?thesis by simp
qed

section \<open>Properties of the markers\<close>

lemma after_first_None: "sep \<noteq> [] \<Longrightarrow> after_first sep s = None \<longleftrightarrow> \<not> contains s sep"
  by (induction s) auto

lemma startswith_longer:
  "startswith (x @ y) p \<Longrightarrow> length p \<le> length x \<Longrightarrow> startswith x p"
  by (simp add: startswith_def)

lemma after_first_occurrence:
  "sep \<noteq> [] \<Longrightarrow> \<not> contains (pre @ butlast sep) sep \<Longrightarrow>
   after_first sep (pre @ sep @ post) = Some post"
proof (induction pre)
  case Nil
  then obtain c s where "sep = c # s" by (cases sep) auto
  then show ?case by (simp add: startswith_def)
next
  case (Cons a pre)
  from Cons.prems(2) have ns: "\<not> startswith (a # pre @ butlast sep) sep"
    and nc: "\<not> contains (pre @ butlast sep) sep" by simp_all
  have whole: "a # pre @ sep @ post = (a # pre @ butlast sep) @ ([last sep] @ post)"
    using Cons.prems(1) by simp
  have "\<not> startswith (a # pre @ sep @ post) sep"
  proof
    assume "startswith (a # pre @ sep @ post) sep"
    then have "startswith ((a # pre @ butlast sep) @ ([last sep] @ post)) sep"
      by (simp only: whole)
    then have "startswith (a # pre @ butlast sep) sep"
      by (rule startswith_longer) simp
    with ns show False by contradiction
  qed
  with Cons.IH [OF Cons.prems(1) nc] show ?case by simp
qed

lemma selection_marker_def_after:
  assumes "line = pre @ ''def'' @ post" "\<not> contains (pre @ ''de'') ''def''"
  shows "selection_marker line = strip post"
proof -
  have "after_first ''def'' (pre @ ''def'' @ post) = Some post"
    by (rule after_first_occurrence) (use assms(2) in simp_all)
  then show ?thesis by (simp add: selection_marker_def assms(1))
qed

lemma selection_marker_no_def: "\<not> contains line ''def'' \<Longrightarrow> selection_marker line = []"
  using after_first_None [of "''def''" line] by (simp add: selection_marker_def)

lemma group_of_add:
  "group_of (add_code_chunk marker u groups) m
     = (if m = marker then group_of groups m @ [u] else group_of groups m)"
  by (auto simp: group_of_def add_code_chunk_def update_conv' split: option.splits)

lemma keys_add:
  "distinct (map fst groups) \<Longrightarrow> distinct (map fst (add_code_chunk marker u groups))"
  by (auto simp: add_code_chunk_def distinct_update map_of_eq_None_iff split: option.splits)

lemma hunks_loop_groups:
  "hunks_loop chunks file_text groups = Inr (file_text', groups') \<Longrightarrow>
   \<exists>ums. map annotate_hunk chunks = map Inr ums
     \<and> file_text' = file_text @ concat (map (\<lambda>(u, m). code u) ums)
     \<and> (\<forall>marker. group_of groups' marker
           = group_of groups marker @ map fst (filter (\<lambda>(u, m). m = marker) ums))
     \<and> (distinct (map fst groups) \<longrightarrow> distinct (map fst groups'))"
proof (induction chunks arbitrary: file_text groups)
  case Nil
  then show ?case by simp
next
  case (Cons ch chunks)
  from Cons.prems obtain u m where a: "annotate_hunk ch = Inr (u, m)"
    and rec: "hunks_loop chunks (file_text @ code u) (add_code_chunk m u groups)
                = Inr (file_text', groups')"
    by (auto split: sum.splits)
  from Cons.IH [OF rec] obtain ums where
    ums: "map annotate_hunk chunks = map Inr ums"
      "file_text' = (file_text @ code u) @ concat (map (\<lambda>(u, m). code u) ums)"
      "\<forall>marker. group_of groups' marker
         = group_of (add_code_chunk m u groups) marker @ map fst (filter (\<lambda>(u, m). m = marker) ums)"
      "distinct (map fst (add_code_chunk m u groups)) \<longrightarrow> distinct (map fst groups')"
    by blast
  show ?case
    apply (rule exI [of _ "(u, m) # ums"])
    using a ums keys_add [of groups m u] by (simp add: group_of_add)
qed

text \<open>
  Claim C3, as the specification words it: the marker of a header line is the text after
  the four numbers and the closing \<open>@@\<close>, trimmed. The source splits the line at the
  first \<open>def\<close> instead: a header line that ends with \<open>class Foo:\<close> has the empty
  marker, and for \<open>def foo(x):\<close> the marker is \<open>foo(x):\<close>, without the \<open>def\<close>.
\<close>

theorem selection_marker_differs_from_trailing_text:
  "selection_marker ''@@ -1,3 +1,4 @@ class Foo:'' = []
   \<and> header_trailing_text ''@@ -1,3 +1,4 @@ class Foo:'' = ''class Foo:''
   \<and> selection_marker ''@@ -1,3 +1,4 @@ def foo(x):'' = ''foo(x):''
   \<and> header_trailing_text ''@@ -1,3 +1,4 @@ def foo(x):'' = ''def foo(x):''"
  by code_simp

text \<open>
  Claim C3, amended. The marker of a header line is the text after the first \<open>def\<close> in
  the line, trimmed, and the empty text when \<open>def\<close> does not occur in the line; a
  well-formed hunk is filed under the marker of its header line. After the loop over
  the hunks of a file, the group of every marker, the empty marker too, holds the code
  chunks of the hunks with this marker, in the order of the hunks, and no marker is a key
  twice.
\<close>

theorem marker_after_def_and_groups:
  "(\<forall>pre post. line = pre @ ''def'' @ post \<and> \<not> contains (pre @ ''de'') ''def''
       \<longrightarrow> selection_marker line = strip post)
   \<and> (\<not> contains line ''def'' \<longrightarrow> selection_marker line = [])
   \<and> (well_formed_hunk new_count trailing body \<longrightarrow>
        (\<exists>u. annotate_hunk (hunk_text old_start old_count new_start new_count trailing body)
           = Inr (u, selection_marker
                      (hunk_header_line old_start old_count new_start new_count trailing))))
   \<and> (\<forall>file_text' groups'.
         hunks_loop chunks file_text [] = Inr (file_text', groups') \<longrightarrow>
         (\<exists>ums. map annotate_hunk chunks = map Inr ums
            \<and> (\<forall>marker. group_of groups' marker = map fst (filter (\<lambda>(u, m). m = marker) ums))
            \<and> distinct (map fst groups')))"
proof (intro conjI allI impI)
  fix pre post
  assume "line = pre @ ''def'' @ post \<and> \<not> contains (pre @ ''de'') ''def''"
  then show "selection_marker line = strip post"
    using selection_marker_def_after by blast
next
  assume "\<not> contains line ''def''"
  then show "selection_marker line = []" by (rule selection_marker_no_def)
next
  assume "well_formed_hunk new_count trailing body"
  then have "no_linebreak trailing" "\<forall>l\<in>set body. body_line l"
    by (simp_all add: well_formed_hunk_def)
  from annotate_well_formed_hunk [OF this]
  show "\<exists>u. annotate_hunk (hunk_text old_start old_count new_start new_count trailing body)
           = Inr (u, selection_marker
                      (hunk_header_line old_start old_count new_start new_count trailing))"
    by blast
next
  fix file_text' groups'
  assume "hunks_loop chunks file_text [] = Inr (file_text', groups')"
  from hunks_loop_groups [OF this]
  show "\<exists>ums. map annotate_hunk chunks = map Inr ums
            \<and> (\<forall>marker. group_of groups' marker = map fst (filter (\<lambda>(u, m). m = marker) ums))
            \<and> distinct (map fst groups')"
    by (auto simp: group_of_def)
qed

theorem marker_after_def_and_groups_witness:
  "selection_marker ''@@ -1,3 +1,4 @@ def foo(x):'' = ''foo(x):''
   \<and> selection_marker ''@@ -1,3 +1,4 @@ class Foo:'' = []"
proof -
  have nc: "\<not> contains (''@@ -1,3 +1,4 @@ '' @ ''de'') ''def''" by code_simp
  have nc2: "\<not> contains ''@@ -1,3 +1,4 @@ class Foo:'' ''def''" by code_simp
  have st: "strip '' foo(x):'' = ''foo(x):''" by code_simp
  have a: "\<forall>pre post. ''@@ -1,3 +1,4 @@ def foo(x):'' = pre @ ''def'' @ post
        \<and> \<not> contains (pre @ ''de'') ''def''
       \<longrightarrow> selection_marker ''@@ -1,3 +1,4 @@ def foo(x):'' = strip post"
    using marker_after_def_and_groups [of "''@@ -1,3 +1,4 @@ def foo(x):''"]
    by (rule conjunct1)
  have eq: "''@@ -1,3 +1,4 @@ def foo(x):'' = ''@@ -1,3 +1,4 @@ '' @ ''def'' @ '' foo(x):''"
    by simp
  from a eq nc have "selection_marker ''@@ -1,3 +1,4 @@ def foo(x):'' = strip '' foo(x):''"
    by blast
  moreover from marker_after_def_and_groups [of "''@@ -1,3 +1,4 @@ class Foo:''"]
  have "selection_marker ''@@ -1,3 +1,4 @@ class Foo:'' = []"
    using nc2 by blast
  ultimately show ?thesis using st by simp
qed

section \<open>Properties of the split into files\<close>

lemma re_split_files_length: "length (re_split_files k cur s) \<le> Suc k"
  by (induction k cur s rule: re_split_files.induct) (auto split: option.splits)

lemma format_file_names:
  "format_file j file_chunk res = Inr res' \<Longrightarrow>
   length (file_names res') \<le> Suc (length (file_names res))"
  by (auto simp: format_file_def split: list.splits sum.splits)

lemma files_loop_names:
  "files_loop j chunks res = Inr res' \<Longrightarrow>
   length (file_names res') \<le> length (file_names res) + length chunks"
proof (induction chunks arbitrary: j res)
  case Nil
  then show ?case by simp
next
  case (Cons ch chunks)
  from Cons.prems obtain r1 where f: "format_file j ch res = Inr r1"
    and rec: "files_loop (j + 1) chunks r1 = Inr res'"
    by (auto split: sum.splits)
  from Cons.IH [OF rec] format_file_names [OF f] show ?case by simp
qed

lemma format_git_diff_at_most_eight_files:
  "format_git_diff diff_text = Inr res \<Longrightarrow> length (file_names res) \<le> 8"
proof -
  assume run: "format_git_diff diff_text = Inr res"
  have "length (parent_chunks diff_text) \<le> 9"
    using re_split_files_length [of 8 "[]" diff_text] by (simp add: parent_chunks_def re_MULTILINE_def)
  then have "length (tl (parent_chunks diff_text)) \<le> 8" by simp
  with files_loop_names [OF run [unfolded format_git_diff_def]] show ?thesis by simp
qed

text \<open>
  Claim C2. The claim: one file record for every file of the diff, without an upper bound.
  The source passes \<open>re.MULTILINE\<close>, the number 8, where \<open>re.split\<close> takes
  \<open>maxsplit\<close>, so the text is split at most eight times and a diff never gives more
  than eight files (\<open>format_git_diff_at_most_eight_files\<close>). For the diff below, of
  the nine files \<open>f1\<close> to \<open>f9\<close>, the result has the eight names \<open>f1\<close> to \<open>f8\<close>.
\<close>

theorem format_git_diff_nine_files:
  "map_sum id file_names (format_git_diff
     ''diff --git a/f1 b/f1\<newline>--- a/f1\<newline>+++ b/f1\<newline>@@ -1,1 +1,1 @@\<newline>-x\<newline>+y\<newline>diff --git a/f2 b/f2\<newline>--- a/f2\<newline>+++ b/f2\<newline>@@ -1,1 +1,1 @@\<newline>-x\<newline>+y\<newline>diff --git a/f3 b/f3\<newline>--- a/f3\<newline>+++ b/f3\<newline>@@ -1,1 +1,1 @@\<newline>-x\<newline>+y\<newline>diff --git a/f4 b/f4\<newline>--- a/f4\<newline>+++ b/f4\<newline>@@ -1,1 +1,1 @@\<newline>-x\<newline>+y\<newline>diff --git a/f5 b/f5\<newline>--- a/f5\<newline>+++ b/f5\<newline>@@ -1,1 +1,1 @@\<newline>-x\<newline>+y\<newline>diff --git a/f6 b/f6\<newline>--- a/f6\<newline>+++ b/f6\<newline>@@ -1,1 +1,1 @@\<newline>-x\<newline>+y\<newline>diff --git a/f7 b/f7\<newline>--- a/f7\<newline>+++ b/f7\<newline>@@ -1,1 +1,1 @@\<newline>-x\<newline>+y\<newline>diff --git a/f8 b/f8\<newline>--- a/f8\<newline>+++ b/f8\<newline>@@ -1,1 +1,1 @@\<newline>-x\<newline>+y\<newline>diff --git a/f9 b/f9\<newline>--- a/f9\<newline>+++ b/f9\<newline>@@ -1,1 +1,1 @@\<newline>-x\<newline>+y\<newline>'')
   = Inr [''f1'', ''f2'', ''f3'', ''f4'', ''f5'', ''f6'', ''f7'', ''f8'']"
  by code_simp

end
